theory Spec2Isabelle
  imports Complex_Main "HOL-Library.Word"
begin

section \<open>The image worker: data and external collaborators\<close>

text \<open>
  The module \<^verbatim>\<open>image_get/worker/consumer.py\<close> talks to a Kafka broker, an HTTP session, the
  imaging library, a persister and a clock. None of them is part of the module, so each is
  an oracle in the record \<open>env\<close>; what the module does with them is the embedding below.
  An exception is a value of type \<open>exn\<close>; a call that may raise returns \<open>exn + 'a\<close>.
\<close>

type_synonym url = string
type_synonym bytes = "8 word list"

datatype exn =
    NoBrokersAvailableError
  | RecursionError
  | UnicodeDecodeError
  | TypeError
  | ZeroDivisionError
  | OtherError string

datatype client = Client nat
datatype message = Message (val: "bytes option")
datatype response = Response nat
datatype image = Image nat
datatype resample = NEAREST | BICUBIC

datatype call = ImageOpen bytes | ThumbnailImage image

datatype logline =
    Retrying
  | BatchSize int
  | ResizeRate rat
  | BatchTime rat

datatype event =
    LogInfo logline
  | Sleep nat
  | HttpGet url
  | BodyRead response
  | RunInExecutor call
  | Persist bytes
  | CommitOffsets

record env =
  KAFKA_HOSTS :: string
  BATCH_SIZE :: int
  TARGET_RESOLUTION :: "nat \<times> nat"
  recursion_room :: nat
  KafkaClient :: "string \<Rightarrow> nat \<Rightarrow> exn + client"
  timer :: "nat \<Rightarrow> rat"
  queue :: "nat \<Rightarrow> message option"
  auto_commit_due :: "nat \<Rightarrow> bool"
  str_utf8 :: "bytes \<Rightarrow> exn + string"
  session_get :: "url \<Rightarrow> exn + response"
  resp_read :: "response \<Rightarrow> exn + bytes"
  Image_open :: "bytes \<Rightarrow> exn + image"
  img_thumbnail :: "nat \<times> nat \<Rightarrow> resample \<Rightarrow> image \<Rightarrow> exn + image"
  img_save :: "image \<Rightarrow> string \<Rightarrow> exn + bytes"
  persister :: "bytes \<Rightarrow> exn + unit"

text \<open>
  \<open>KafkaClient e hosts k\<close> is the outcome of the \<open>k\<close>-th construction of a client,
  \<open>timer e k\<close> the \<open>k\<close>-th reading of the clock and \<open>queue e k\<close> the outcome of the
  \<open>k\<close>-th non-blocking \<^verbatim>\<open>consumer.consume\<close>; \<open>auto_commit_due e k\<close> says whether the
  commit interval of the client library has elapsed at that call. \<open>recursion_room e\<close> is
  the number of nested activations of \<^verbatim>\<open>kafka_connect\<close> that the recursion limit of the
  interpreter (\<^verbatim>\<open>sys.getrecursionlimit()\<close>, 1000 unless it is changed) leaves room for.
  The state counts the calls made so far and records the visible effects: the messages
  handed out by the consumer, the number of them covered by the last commit, the buffers
  the persister has stored, and the trace of the other effects in the order they happen.
\<close>

record state =
  connect_calls :: nat
  timer_calls :: nat
  consume_calls :: nat
  delivered :: nat
  committed :: nat
  persisted :: "bytes list"
  trace :: "event list"

subsection \<open>Floats\<close>

text \<open>
  The clock returns Python floats, and the module subtracts and divides them. A float is
  modelled by the rational it stands for; the result of an operation is the exact result
  rounded to the nearest double, ties to even (53 bits of precision, exponents from
  \<open>- 1022\<close>, gradual underflow). Above the largest double the model keeps the rounded
  value where Python has \<^verbatim>\<open>inf\<close>; a comparison with 0 or 3 gives the same answer for both.
\<close>

text \<open>The number of binary digits of \<open>n\<close> (\<^verbatim>\<open>int.bit_length\<close>).\<close>

fun bit_length :: "nat \<Rightarrow> nat" where
  "bit_length 0 = 0"
| "bit_length (Suc n) = Suc (bit_length (Suc n div 2))"

text \<open>For \<open>0 < x\<close>, \<open>ilog2 x\<close> is the integer \<open>k\<close> with \<open>2 ^ k \<le> x < 2 ^ (k + 1)\<close>.\<close>

definition ilog2 :: "rat \<Rightarrow> int" where
  "ilog2 x =
     (if 1 \<le> x then int (bit_length (nat \<lfloor>x\<rfloor>)) - 1
      else - int (bit_length (nat (\<lceil>1 / x\<rceil> - 1))))"

definition pow2 :: "int \<Rightarrow> rat" where
  "pow2 k = (if 0 \<le> k then 2 ^ nat k else 1 / 2 ^ nat (- k))"

definition round_half_even :: "rat \<Rightarrow> int" where
  "round_half_even x =
     (let f = \<lfloor>x\<rfloor>; r = x - of_int f
      in if r < 1 / 2 then f else if 1 / 2 < r then f + 1 else if even f then f else f + 1)"

definition round_double :: "rat \<Rightarrow> rat" where
  "round_double x =
     (if x = 0 then 0
      else let q = pow2 (max (ilog2 \<bar>x\<bar>) (- 1022) - 52)
           in of_int (round_half_even (x / q)) * q)"

definition fsub :: "rat \<Rightarrow> rat \<Rightarrow> rat" where
  "fsub a b = round_double (a - b)"

definition fdiv :: "rat \<Rightarrow> rat \<Rightarrow> rat" where
  "fdiv a b = round_double (a / b)"

subsection \<open>Clock, consumer and trace\<close>

definition emit :: "event \<Rightarrow> state \<Rightarrow> state" where
  "emit ev s = s\<lparr>trace := trace s @ [ev]\<rparr>"

definition timer_read :: "env \<Rightarrow> state \<Rightarrow> rat \<times> state" where
  "timer_read e s = (timer e (timer_calls s), s\<lparr>timer_calls := Suc (timer_calls s)\<rparr>)"

text \<open>
  \<open>consume\<close> creates its consumer with \<^verbatim>\<open>auto_commit_enable=True\<close> (line 66). Inside a call of
  \<^verbatim>\<open>consumer.consume\<close> the client library then commits by itself, when its commit interval
  has elapsed, the position it has reached with the message this call hands out. Such a
  commit is not a call of \<^verbatim>\<open>commit_offsets\<close> by the module and leaves no event in the trace.
\<close>

definition auto_commit_enable :: bool where
  "auto_commit_enable = True"

definition consumer_consume :: "env \<Rightarrow> state \<Rightarrow> message option \<times> state" where
  "consumer_consume e s =
     (let k = consume_calls s;
          s1 = (case queue e k of None \<Rightarrow> s | Some m \<Rightarrow> s\<lparr>delivered := Suc (delivered s)\<rparr>);
          s2 = (if auto_commit_enable \<and> auto_commit_due e k
                then s1\<lparr>committed := delivered s1\<rparr> else s1)
      in (queue e k, s2\<lparr>consume_calls := Suc k\<rparr>))"

definition commit_offsets :: "state \<Rightarrow> state" where
  "commit_offsets s = (emit CommitOffsets s)\<lparr>committed := delivered s\<rparr>"

definition commit_calls :: "state \<Rightarrow> nat" where
  "commit_calls s = length (filter (\<lambda>ev. ev = CommitOffsets) (trace s))"

section \<open>kafka\_connect\<close>

text \<open>
  The function retries by calling itself in the handler of \<^verbatim>\<open>NoBrokersAvailableError\<close>
  (line 20), so every retry is one more activation on the stack of the interpreter. An
  activation for which the recursion limit leaves no room raises \<^verbatim>\<open>RecursionError\<close>; no
  handler of the activations below catches it, so it reaches the caller.
\<close>

fun kafka_connect_rec :: "env \<Rightarrow> nat \<Rightarrow> state \<Rightarrow> (exn + client) \<times> state" where
  "kafka_connect_rec e 0 s = (Inl RecursionError, s)"
| "kafka_connect_rec e (Suc room) s =
     (case KafkaClient e (KAFKA_HOSTS e) (connect_calls s) of
        Inr client \<Rightarrow> (Inr client, s\<lparr>connect_calls := Suc (connect_calls s)\<rparr>)
      | Inl x \<Rightarrow>
          if x = NoBrokersAvailableError
          then kafka_connect_rec e room
                 (emit (Sleep 3) (emit (LogInfo Retrying) (s\<lparr>connect_calls := Suc (connect_calls s)\<rparr>)))
          else (Inl x, s\<lparr>connect_calls := Suc (connect_calls s)\<rparr>))"

definition kafka_connect :: "env \<Rightarrow> state \<Rightarrow> (exn + client) \<times> state" where
  "kafka_connect e s = kafka_connect_rec e (recursion_room e) s"

section \<open>poll\_consumer\<close>

text \<open>\<^verbatim>\<open>str(message.value, 'utf-8')\<close>; the value of a message may be \<^verbatim>\<open>None\<close>.\<close>

definition parse_message :: "env \<Rightarrow> message \<Rightarrow> exn + string" where
  "parse_message e m = (case val m of None \<Rightarrow> Inl TypeError | Some b \<Rightarrow> str_utf8 e b)"

record poll_vars =
  batch :: "string list"
  elapsed_time :: rat
  last_msg_time :: rat
  msg_count :: int

definition max_wait_seconds :: rat where
  "max_wait_seconds = 3"

definition poll_guard :: "int \<Rightarrow> poll_vars \<Rightarrow> bool" where
  "poll_guard batch_size v \<longleftrightarrow> msg_count v < batch_size \<and> elapsed_time v < max_wait_seconds"

text \<open>One run of the body of the \<^verbatim>\<open>while\<close> loop.\<close>

definition poll_body :: "env \<Rightarrow> poll_vars \<Rightarrow> state \<Rightarrow> (exn + poll_vars) \<times> state" where
  "poll_body e v s =
     (case consumer_consume e s of
        (None, s1) \<Rightarrow>
          (case timer_read e s1 of
             (t, s2) \<Rightarrow> (Inr (v\<lparr>elapsed_time := fsub t (last_msg_time v)\<rparr>), s2))
      | (Some m, s1) \<Rightarrow>
          (case parse_message e m of
             Inl x \<Rightarrow> (Inl x, s1)
           | Inr parsed \<Rightarrow>
               (case timer_read e s1 of
                  (t1, s2) \<Rightarrow>
                    (case timer_read e s2 of
                       (t2, s3) \<Rightarrow>
                         (Inr (v\<lparr>batch := batch v @ [parsed], last_msg_time := t1,
                                 msg_count := msg_count v + 1, elapsed_time := fsub t2 t1\<rparr>), s3)))))"

partial_function (option) poll_loop ::
  "env \<Rightarrow> int \<Rightarrow> poll_vars \<Rightarrow> state \<Rightarrow> ((exn + string list) \<times> state) option" where
  "poll_loop e batch_size v s =
     (if poll_guard batch_size v
      then (case poll_body e v s of
              (Inl x, s') \<Rightarrow> Some (Inl x, s')
            | (Inr v', s') \<Rightarrow> poll_loop e batch_size v' s')
      else Some (Inr (batch v), s))"

definition poll_init :: "rat \<Rightarrow> poll_vars" where
  "poll_init t = \<lparr>batch = [], elapsed_time = 0, last_msg_time = t, msg_count = 0\<rparr>"

definition poll_consumer :: "env \<Rightarrow> int \<Rightarrow> state \<Rightarrow> ((exn + string list) \<times> state) option" where
  "poll_consumer e batch_size s =
     (case timer_read e s of (t, s0) \<Rightarrow> poll_loop e batch_size (poll_init t) s0)"

section \<open>thumbnail\_image and process\_image\<close>

text \<open>
  \<^verbatim>\<open>img.thumbnail\<close> changes the image in place; the model returns the changed image.
  The buffer returned by \<open>thumbnail_image\<close> is the one \<^verbatim>\<open>img.save\<close> has written.
\<close>

definition thumbnail_image :: "env \<Rightarrow> image \<Rightarrow> exn + bytes" where
  "thumbnail_image e img =
     (case img_thumbnail e (TARGET_RESOLUTION e) NEAREST img of
        Inl x \<Rightarrow> Inl x
      | Inr img' \<Rightarrow> img_save e img' ''JPEG'')"

text \<open>
  The persister is a parameter of \<^verbatim>\<open>process_image\<close>; a buffer it has accepted without raising
  is appended to \<open>persisted\<close>.
\<close>

definition persist :: "env \<Rightarrow> bytes \<Rightarrow> state \<Rightarrow> (exn + unit) \<times> state" where
  "persist e thumb s =
     (let s' = emit (Persist thumb) s in
      case persister e thumb of
        Inl x \<Rightarrow> (Inl x, s')
      | Inr _ \<Rightarrow> (Inr (), s'\<lparr>persisted := persisted s' @ [thumb]\<rparr>))"

text \<open>The two persisters of the module have the body \<^verbatim>\<open>pass\<close>: they accept every buffer.\<close>

definition save_thumbnail_s3 :: "bytes \<Rightarrow> exn + unit" where
  "save_thumbnail_s3 img = Inr ()"

definition save_thumbnail_local :: "bytes \<Rightarrow> exn + unit" where
  "save_thumbnail_local img = Inr ()"

definition process_image :: "env \<Rightarrow> url \<Rightarrow> state \<Rightarrow> (exn + unit) \<times> state" where
  "process_image e url s =
     (let s1 = emit (HttpGet url) s in
      case session_get e url of
        Inl x \<Rightarrow> (Inl x, s1)
      | Inr img_resp \<Rightarrow>
          (let s2 = emit (BodyRead img_resp) s1 in
           case resp_read e img_resp of
             Inl x \<Rightarrow> (Inl x, s2)
           | Inr buffer \<Rightarrow>
               (let s3 = emit (RunInExecutor (ImageOpen buffer)) s2 in
                case Image_open e buffer of
                  Inl x \<Rightarrow> (Inl x, s3)
                | Inr img \<Rightarrow>
                    (let s4 = emit (RunInExecutor (ThumbnailImage img)) s3 in
                     case thumbnail_image e img of
                       Inl x \<Rightarrow> (Inl x, s4)
                     | Inr thumb \<Rightarrow> persist e thumb s4))))"

subsection \<open>The coroutine, one await at a time\<close>

text \<open>
  \<^verbatim>\<open>asyncio.gather\<close> runs the coroutines of a batch interleaved; a coroutine gives up control
  only at an \<^verbatim>\<open>await\<close>. A task is the URL together with the await it is suspended at (and
  the value it holds there); \<open>task_step\<close> runs it up to its next await.
\<close>

datatype stage =
    AtGet
  | AtRead response
  | AtOpen bytes
  | AtThumbnail image
  | AtPersist bytes
  | Finished
  | Failed exn

type_synonym task = "url \<times> stage"

fun task_step :: "env \<Rightarrow> task \<Rightarrow> state \<Rightarrow> task \<times> state" where
  "task_step e (u, AtGet) s =
     ((u, case session_get e u of Inl x \<Rightarrow> Failed x | Inr img_resp \<Rightarrow> AtRead img_resp),
      emit (HttpGet u) s)"
| "task_step e (u, AtRead img_resp) s =
     ((u, case resp_read e img_resp of Inl x \<Rightarrow> Failed x | Inr buffer \<Rightarrow> AtOpen buffer),
      emit (BodyRead img_resp) s)"
| "task_step e (u, AtOpen buffer) s =
     ((u, case Image_open e buffer of Inl x \<Rightarrow> Failed x | Inr img \<Rightarrow> AtThumbnail img),
      emit (RunInExecutor (ImageOpen buffer)) s)"
| "task_step e (u, AtThumbnail img) s =
     ((u, case thumbnail_image e img of Inl x \<Rightarrow> Failed x | Inr thumb \<Rightarrow> AtPersist thumb),
      emit (RunInExecutor (ThumbnailImage img)) s)"
| "task_step e (u, AtPersist thumb) s =
     (case persist e thumb s of
        (Inl x, s') \<Rightarrow> ((u, Failed x), s')
      | (Inr _, s') \<Rightarrow> ((u, Finished), s'))"
| "task_step e (u, Finished) s = ((u, Finished), s)"
| "task_step e (u, Failed x) s = ((u, Failed x), s)"

fun run_task :: "env \<Rightarrow> nat \<Rightarrow> task \<Rightarrow> state \<Rightarrow> task \<times> state" where
  "run_task e 0 t s = (t, s)"
| "run_task e (Suc n) t s = (case task_step e t s of (t', s') \<Rightarrow> run_task e n t' s')"

section \<open>consume\<close>

text \<open>
  \<^verbatim>\<open>await asyncio.gather(*tasks)\<close>: the schedule lists, in order, the index of the task that
  runs next. The join returns once every task has finished, and it raises the exception of
  the first task that fails; a schedule that ends before that leaves the join pending for
  ever (no await has a timeout). When a task has failed, \<open>consume\<close> resumes only when the
  event loop gets to it: the tasks that are ready meanwhile run on (\<open>late\<close> lists them) and
  may finish, store or fail, and their exceptions are not raised.
\<close>

datatype join = Joined | JoinRaised exn | Pending

definition all_finished :: "task list \<Rightarrow> bool" where
  "all_finished ts \<longleftrightarrow> list_all (\<lambda>t. snd t = Finished) ts"

text \<open>The exception a task has ended with, if any (\<^verbatim>\<open>Task.exception()\<close>).\<close>

fun task_exception :: "task \<Rightarrow> exn option" where
  "task_exception (u, Failed x) = Some x"
| "task_exception (u, st) = None"

fun run_late :: "env \<Rightarrow> nat list \<Rightarrow> task list \<Rightarrow> state \<Rightarrow> task list \<times> state" where
  "run_late e [] ts s = (ts, s)"
| "run_late e (i # late) ts s =
     (if i < length ts then
        (case task_step e (ts ! i) s of (t', s') \<Rightarrow> run_late e late (ts[i := t']) s')
      else run_late e late ts s)"

fun gather ::
  "env \<Rightarrow> nat list \<Rightarrow> nat list \<Rightarrow> task list \<Rightarrow> state \<Rightarrow> join \<times> task list \<times> state" where
  "gather e [] late ts s = (if all_finished ts then Joined else Pending, ts, s)"
| "gather e (i # sched) late ts s =
     (if all_finished ts then (Joined, ts, s)
      else if i < length ts then
        (case task_step e (ts ! i) s of
           (t', s') \<Rightarrow>
             (case task_exception t' of
                Some x \<Rightarrow>
                  (case run_late e late (ts[i := t']) s' of
                     (ts'', s'') \<Rightarrow> (JoinRaised x, ts'', s''))
              | None \<Rightarrow> gather e sched late (ts[i := t']) s'))
      else gather e sched late ts s)"

datatype outcome = Continue | Raised exn | Hung

text \<open>
  One run of the body of \<^verbatim>\<open>while True\<close>, under the schedule \<open>sched\<close> of the join and the
  steps \<open>late\<close> that follow a first failure. The result holds the tasks as the iteration
  left them and the running \<^verbatim>\<open>total\<close>; it is \<open>None\<close> when \<open>poll_consumer\<close> never returns.
\<close>

type_synonym schedule = "nat list \<times> nat list"

definition consume_iteration ::
  "env \<Rightarrow> schedule \<Rightarrow> int \<Rightarrow> state \<Rightarrow> (outcome \<times> task list \<times> int \<times> state) option" where
  "consume_iteration e sched total_n s =
     (case poll_consumer e (BATCH_SIZE e) s of
        None \<Rightarrow> None
      | Some (Inl x, s1) \<Rightarrow> Some (Raised x, [], total_n, s1)
      | Some (Inr messages, s1) \<Rightarrow>
          (case timer_read e s1 of
             (start, s2) \<Rightarrow>
               (let tasks = map (\<lambda>msg. (msg, AtGet)) messages in
                if tasks \<noteq> [] then
                  (let batch_size = int (length tasks);
                       s3 = emit (LogInfo (BatchSize batch_size)) s2;
                       total_n' = total_n + batch_size
                   in case gather e (fst sched) (snd sched) tasks s3 of
                        (Pending, ts, s4) \<Rightarrow> Some (Hung, ts, total_n', s4)
                      | (JoinRaised x, ts, s4) \<Rightarrow> Some (Raised x, ts, total_n', s4)
                      | (Joined, ts, s4) \<Rightarrow>
                          (case timer_read e s4 of
                             (t, s5) \<Rightarrow>
                               (let total_time = fsub t start in
                                if total_time = 0
                                then Some (Raised ZeroDivisionError, ts, total_n', s5)
                                else
                                  (let s6 = emit (LogInfo (ResizeRate (fdiv (of_int batch_size) total_time))) s5;
                                       s7 = emit (LogInfo (BatchTime total_time)) s6
                                   in Some (Continue, ts, total_n', commit_offsets s7)))))
                else Some (Continue, tasks, total_n, emit (Sleep 1) s2))))"

text \<open>
  The loop never ends by itself; \<open>consume_loop\<close> runs one iteration for each schedule
  given and stops early when an iteration raises or hangs.
\<close>

fun consume_loop ::
  "env \<Rightarrow> schedule list \<Rightarrow> int \<Rightarrow> state \<Rightarrow> (outcome \<times> int \<times> state) option" where
  "consume_loop e [] total_n s = Some (Continue, total_n, s)"
| "consume_loop e (sched # rest) total_n s =
     (case consume_iteration e sched total_n s of
        None \<Rightarrow> None
      | Some (Continue, ts, total_n', s') \<Rightarrow> consume_loop e rest total_n' s'
      | Some (Raised x, ts, total_n', s') \<Rightarrow> Some (Raised x, total_n', s')
      | Some (Hung, ts, total_n', s') \<Rightarrow> Some (Hung, total_n', s'))"

definition consume :: "env \<Rightarrow> schedule list \<Rightarrow> state \<Rightarrow> (outcome \<times> int \<times> state) option" where
  "consume e scheds s = consume_loop e scheds 0 s"

section \<open>Definitions used to state the properties\<close>

text \<open>The log lines and sleeps of \<open>n\<close> failed connection attempts.\<close>

definition retry_trace :: "nat \<Rightarrow> event list" where
  "retry_trace n = concat (replicate n [LogInfo Retrying, Sleep 3])"

text \<open>
  \<open>poll_iter e n\<close> runs the body of the polling loop \<open>n\<close> times, whatever the guard says;
  \<open>guards_hold e b n\<close> says that the guard held before each of these \<open>n\<close> runs.
\<close>

fun poll_iter :: "env \<Rightarrow> nat \<Rightarrow> poll_vars \<Rightarrow> state \<Rightarrow> (exn + poll_vars) \<times> state" where
  "poll_iter e 0 v s = (Inr v, s)"
| "poll_iter e (Suc n) v s =
     (case poll_body e v s of
        (Inl x, s') \<Rightarrow> (Inl x, s')
      | (Inr v', s') \<Rightarrow> poll_iter e n v' s')"

definition guards_hold :: "env \<Rightarrow> int \<Rightarrow> nat \<Rightarrow> poll_vars \<Rightarrow> state \<Rightarrow> bool" where
  "guards_hold e b n v s \<longleftrightarrow>
     (\<forall>k<n. \<forall>vk sk. poll_iter e k v s = (Inr vk, sk) \<longrightarrow> poll_guard b vk)"

text \<open>
  What \<open>process_image\<close> holds for a URL after its second, third and fourth step, and the
  buffers handed to the persister according to a trace.
\<close>

definition body_of :: "env \<Rightarrow> url \<Rightarrow> exn + bytes" where
  "body_of e url = (case session_get e url of Inl x \<Rightarrow> Inl x | Inr img_resp \<Rightarrow> resp_read e img_resp)"

definition image_of :: "env \<Rightarrow> url \<Rightarrow> exn + image" where
  "image_of e url = (case body_of e url of Inl x \<Rightarrow> Inl x | Inr buffer \<Rightarrow> Image_open e buffer)"

definition thumbnail_of :: "env \<Rightarrow> url \<Rightarrow> exn + bytes" where
  "thumbnail_of e url = (case image_of e url of Inl x \<Rightarrow> Inl x | Inr img \<Rightarrow> thumbnail_image e img)"

definition persist_calls :: "event list \<Rightarrow> bytes list" where
  "persist_calls evs = concat (map (\<lambda>ev. case ev of Persist b \<Rightarrow> [b] | _ \<Rightarrow> []) evs)"

text \<open>
  A suspended task holds what the steps before its await have produced from its URL; the
  buffer of a finished task is among the buffers \<open>new\<close> stored since the batch began.
\<close>

fun task_ok :: "env \<Rightarrow> bytes list \<Rightarrow> task \<Rightarrow> bool" where
  "task_ok e new (u, AtGet) = True"
| "task_ok e new (u, AtRead img_resp) = (session_get e u = Inr img_resp)"
| "task_ok e new (u, AtOpen buffer) = (body_of e u = Inr buffer)"
| "task_ok e new (u, AtThumbnail img) = (image_of e u = Inr img)"
| "task_ok e new (u, AtPersist thumb) = (thumbnail_of e u = Inr thumb)"
| "task_ok e new (u, Finished) =
     (case thumbnail_of e u of Inl x \<Rightarrow> False | Inr thumb \<Rightarrow> thumb \<in> set new)"
| "task_ok e new (u, Failed x) = True"

text \<open>The state in which the join of a non-empty batch begins, after the poll has ended in \<open>s1\<close>.\<close>

definition fan_out_state :: "string list \<Rightarrow> state \<Rightarrow> state" where
  "fan_out_state messages s1 =
     emit (LogInfo (BatchSize (int (length messages)))) (s1\<lparr>timer_calls := Suc (timer_calls s1)\<rparr>)"

subsection \<open>Concrete environments\<close>

definition init_state :: state where
  "init_state = \<lparr>connect_calls = 0, timer_calls = 0, consume_calls = 0, delivered = 0,
                  committed = 0, persisted = [], trace = []\<rparr>"

text \<open>
  The broker answers the third connection attempt; the recursion limit leaves room for
  990 activations; the clock advances one second per reading; three messages are waiting
  in the queue and the client library does not commit by itself; every URL is fetched,
  decoded and resized, and the persister is \<open>save_thumbnail_local\<close>, as in the main
  program.
\<close>

definition env_demo :: env where
  "env_demo =
     \<lparr>KAFKA_HOSTS = ''kafka:9092'',
      BATCH_SIZE = 2,
      TARGET_RESOLUTION = (640, 480),
      recursion_room = 990,
      KafkaClient = (\<lambda>hosts k. if k < 2 then Inl NoBrokersAvailableError else Inr (Client k)),
      timer = (\<lambda>k. of_nat k),
      queue = (\<lambda>k. if k < 3 then Some (Message (Some [of_nat k])) else None),
      auto_commit_due = (\<lambda>k. False),
      str_utf8 = (\<lambda>b. if b = [0] then Inr ''u0'' else if b = [1] then Inr ''u1''
                       else if b = [2] then Inr ''u2'' else Inl UnicodeDecodeError),
      session_get = (\<lambda>u. Inr (Response (length u))),
      resp_read = (\<lambda>r. Inr [255, 216]),
      Image_open = (\<lambda>b. Inr (Image (length b))),
      img_thumbnail = (\<lambda>size rs img. Inr img),
      img_save = (\<lambda>img fmt. Inr [255, 216, 255]),
      persister = save_thumbnail_local\<rparr>"

text \<open>The construction of the client fails with an exception of another class.\<close>

definition env_socket_error :: env where
  "env_socket_error =
     env_demo\<lparr>KafkaClient := (\<lambda>hosts k. Inl (OtherError ''SocketDisconnectedError''))\<rparr>"

text \<open>No broker is ever available.\<close>

definition env_no_brokers :: env where
  "env_no_brokers = env_demo\<lparr>KafkaClient := (\<lambda>hosts k. Inl NoBrokersAvailableError)\<rparr>"

text \<open>No message ever arrives.\<close>

definition env_idle :: env where
  "env_idle = env_demo\<lparr>queue := (\<lambda>k. None)\<rparr>"

text \<open>A batch of three URLs; the fetch of the second one fails.\<close>

definition env_second_fails :: env where
  "env_second_fails =
     env_demo\<lparr>BATCH_SIZE := 3,
              session_get := (\<lambda>u. if u = ''u1'' then Inl (OtherError ''ClientResponseError'')
                                   else Inr (Response (length u)))\<rparr>"

text \<open>The clock stands still from its sixth reading on.\<close>

definition env_frozen_clock :: env where
  "env_frozen_clock = env_demo\<lparr>timer := (\<lambda>k. of_nat (min k 5))\<rparr>"

text \<open>The same batch; the client library commits by itself inside the second call of consume.\<close>

definition env_auto_commit :: env where
  "env_auto_commit = env_second_fails\<lparr>auto_commit_due := (\<lambda>k. k = 1)\<rparr>"

text \<open>
  The clock reads \<open>2 ^ - 60\<close> when the poll starts and 3 afterwards; the first receive is
  empty and a message is there at the second.
\<close>

definition env_boundary :: env where
  "env_boundary =
     env_demo\<lparr>timer := (\<lambda>k. if k = 0 then 1 / 2 ^ 60 else 3),
              queue := (\<lambda>k. if k = 0 then None else Some (Message (Some [0])))\<rparr>"

section \<open>Properties of kafka\_connect\<close>

lemma kafka_connect_rec_retry:
  "n < room \<Longrightarrow>
   (\<forall>k<n. KafkaClient e (KAFKA_HOSTS e) (connect_calls s + k) = Inl NoBrokersAvailableError) \<Longrightarrow>
   KafkaClient e (KAFKA_HOSTS e) (connect_calls s + n) = r \<Longrightarrow>
   r \<noteq> Inl NoBrokersAvailableError \<Longrightarrow>
   kafka_connect_rec e room s =
     (r, s\<lparr>connect_calls := connect_calls s + n + 1, trace := trace s @ retry_trace n\<rparr>)"
proof (induction n arbitrary: s room)
  case 0
  then obtain room' where "room = Suc room'" by (cases room) auto
  with 0 show ?case
    by (auto simp: retry_trace_def split: sum.splits)
next
  case (Suc n)
  from Suc.prems(1) obtain room' where room: "room = Suc room'" "n < room'"
    by (cases room) auto
  let ?s = "emit (Sleep 3) (emit (LogInfo Retrying) (s\<lparr>connect_calls := Suc (connect_calls s)\<rparr>))"
  have first: "KafkaClient e (KAFKA_HOSTS e) (connect_calls s) = Inl NoBrokersAvailableError"
    using Suc.prems(2) by (metis add.right_neutral zero_less_Suc)
  have calls: "connect_calls ?s = Suc (connect_calls s)"
    by (simp add: emit_def)
  have "\<forall>k<n. KafkaClient e (KAFKA_HOSTS e) (connect_calls ?s + k) = Inl NoBrokersAvailableError"
    using Suc.prems(2) calls by (metis Suc_less_eq add_Suc_shift)
  moreover have "KafkaClient e (KAFKA_HOSTS e) (connect_calls ?s + n) = r"
    using Suc.prems(3) calls by simp
  ultimately have "kafka_connect_rec e room' ?s =
     (r, ?s\<lparr>connect_calls := connect_calls ?s + n + 1, trace := trace ?s @ retry_trace n\<rparr>)"
    using Suc.IH[OF room(2)] Suc.prems(4) by blast
  moreover have "kafka_connect_rec e room s = kafka_connect_rec e room' ?s"
    unfolding room(1) by (simp add: first)
  ultimately show ?case
    by (simp add: emit_def retry_trace_def)
qed

lemma kafka_connect_rec_exhausted:
  "(\<forall>k<room. KafkaClient e (KAFKA_HOSTS e) (connect_calls s + k) = Inl NoBrokersAvailableError) \<Longrightarrow>
   kafka_connect_rec e room s =
     (Inl RecursionError,
      s\<lparr>connect_calls := connect_calls s + room, trace := trace s @ retry_trace room\<rparr>)"
proof (induction room arbitrary: s)
  case 0
  then show ?case by (simp add: retry_trace_def)
next
  case (Suc room)
  let ?s = "emit (Sleep 3) (emit (LogInfo Retrying) (s\<lparr>connect_calls := Suc (connect_calls s)\<rparr>))"
  have first: "KafkaClient e (KAFKA_HOSTS e) (connect_calls s) = Inl NoBrokersAvailableError"
    using Suc.prems by (metis add.right_neutral zero_less_Suc)
  have calls: "connect_calls ?s = Suc (connect_calls s)"
    by (simp add: emit_def)
  have "\<forall>k<room. KafkaClient e (KAFKA_HOSTS e) (connect_calls ?s + k) = Inl NoBrokersAvailableError"
    using Suc.prems calls by (metis Suc_less_eq add_Suc_shift)
  from Suc.IH[OF this] have "kafka_connect_rec e room ?s =
     (Inl RecursionError,
      ?s\<lparr>connect_calls := connect_calls ?s + room, trace := trace ?s @ retry_trace room\<rparr>)" .
  moreover have "kafka_connect_rec e (Suc room) s = kafka_connect_rec e room ?s"
    by (simp add: first)
  ultimately show ?case
    by (simp add: emit_def retry_trace_def)
qed

lemma kafka_connect_rec_cases:
  assumes "kafka_connect_rec e room s = (r, s')"
  shows "(\<exists>n<room. (\<forall>k<n. KafkaClient e (KAFKA_HOSTS e) (connect_calls s + k) = Inl NoBrokersAvailableError) \<and>
            KafkaClient e (KAFKA_HOSTS e) (connect_calls s + n) = r \<and>
            r \<noteq> Inl NoBrokersAvailableError \<and>
            s' = s\<lparr>connect_calls := connect_calls s + n + 1, trace := trace s @ retry_trace n\<rparr>) \<or>
         ((\<forall>k<room. KafkaClient e (KAFKA_HOSTS e) (connect_calls s + k) = Inl NoBrokersAvailableError) \<and>
            r = Inl RecursionError \<and>
            s' = s\<lparr>connect_calls := connect_calls s + room, trace := trace s @ retry_trace room\<rparr>)"
proof (cases "\<forall>k<room. KafkaClient e (KAFKA_HOSTS e) (connect_calls s + k) = Inl NoBrokersAvailableError")
  case True
  from kafka_connect_rec_exhausted[OF True] assms True show ?thesis by simp
next
  case False
  let ?Q = "\<lambda>k. k < room \<and> KafkaClient e (KAFKA_HOSTS e) (connect_calls s + k) \<noteq> Inl NoBrokersAvailableError"
  from False have ex: "\<exists>k. ?Q k" by blast
  define n where "n = (LEAST k. ?Q k)"
  have Qn: "?Q n" unfolding n_def using ex by (rule LeastI_ex)
  have before: "\<forall>k<n. KafkaClient e (KAFKA_HOSTS e) (connect_calls s + k) = Inl NoBrokersAvailableError"
  proof (intro allI impI)
    fix k assume "k < n"
    then have "\<not> ?Q k" unfolding n_def by (rule not_less_Least)
    moreover have "k < room" using \<open>k < n\<close> Qn by simp
    ultimately show "KafkaClient e (KAFKA_HOSTS e) (connect_calls s + k) = Inl NoBrokersAvailableError"
      by blast
  qed
  from kafka_connect_rec_retry[OF _ before refl] Qn assms
  have "r = KafkaClient e (KAFKA_HOSTS e) (connect_calls s + n)"
    "s' = s\<lparr>connect_calls := connect_calls s + n + 1, trace := trace s @ retry_trace n\<rparr>"
    by simp_all
  with before Qn show ?thesis by blast
qed

text \<open>
  Claim C7, as the code has it. While the recursion limit leaves room (\<open>n < recursion_room e\<close>),
  \<open>n\<close> attempts that fail with \<^verbatim>\<open>NoBrokersAvailableError\<close> are each followed by one log
  line, one sleep of 3 and one more attempt with the same hosts, and the outcome of the
  first attempt that does not fail in this way is the outcome of \<open>kafka_connect\<close>: the
  client of a successful attempt, or the exception of another class as it is. The error
  \<^verbatim>\<open>NoBrokersAvailableError\<close> never reaches the caller, and a client that is returned is
  the client of a successful attempt.
\<close>

theorem kafka_connect_retries_until_connected:
  "(\<forall>n r. n < recursion_room e \<and>
       (\<forall>k<n. KafkaClient e (KAFKA_HOSTS e) (connect_calls s + k) = Inl NoBrokersAvailableError) \<and>
       KafkaClient e (KAFKA_HOSTS e) (connect_calls s + n) = r \<and>
       r \<noteq> Inl NoBrokersAvailableError \<longrightarrow>
       kafka_connect e s =
         (r, s\<lparr>connect_calls := connect_calls s + n + 1, trace := trace s @ retry_trace n\<rparr>)) \<and>
   fst (kafka_connect e s) \<noteq> Inl NoBrokersAvailableError \<and>
   (\<forall>c s'. kafka_connect e s = (Inr c, s') \<longrightarrow>
      (\<exists>n. (\<forall>k<n. KafkaClient e (KAFKA_HOSTS e) (connect_calls s + k) = Inl NoBrokersAvailableError) \<and>
           KafkaClient e (KAFKA_HOSTS e) (connect_calls s + n) = Inr c \<and>
           s' = s\<lparr>connect_calls := connect_calls s + n + 1, trace := trace s @ retry_trace n\<rparr>))"
proof (intro conjI allI impI)
  fix n r
  assume "n < recursion_room e \<and>
       (\<forall>k<n. KafkaClient e (KAFKA_HOSTS e) (connect_calls s + k) = Inl NoBrokersAvailableError) \<and>
       KafkaClient e (KAFKA_HOSTS e) (connect_calls s + n) = r \<and>
       r \<noteq> Inl NoBrokersAvailableError"
  then show "kafka_connect e s =
         (r, s\<lparr>connect_calls := connect_calls s + n + 1, trace := trace s @ retry_trace n\<rparr>)"
    unfolding kafka_connect_def using kafka_connect_rec_retry by blast
next
  obtain r s' where res: "kafka_connect_rec e (recursion_room e) s = (r, s')"
    by (cases "kafka_connect_rec e (recursion_room e) s")
  from kafka_connect_rec_cases[OF res] have "r \<noteq> Inl NoBrokersAvailableError" by auto
  then show "fst (kafka_connect e s) \<noteq> Inl NoBrokersAvailableError"
    by (simp add: kafka_connect_def res)
next
  fix c s'
  assume "kafka_connect e s = (Inr c, s')"
  then have "kafka_connect_rec e (recursion_room e) s = (Inr c, s')"
    by (simp add: kafka_connect_def)
  from kafka_connect_rec_cases[OF this]
  show "\<exists>n. (\<forall>k<n. KafkaClient e (KAFKA_HOSTS e) (connect_calls s + k) = Inl NoBrokersAvailableError) \<and>
           KafkaClient e (KAFKA_HOSTS e) (connect_calls s + n) = Inr c \<and>
           s' = s\<lparr>connect_calls := connect_calls s + n + 1, trace := trace s @ retry_trace n\<rparr>"
    by auto
qed

theorem kafka_connect_retries_until_connected_witness:
  "kafka_connect env_demo init_state =
     (Inr (Client 2),
      init_state\<lparr>connect_calls := 3,
                 trace := [LogInfo Retrying, Sleep 3, LogInfo Retrying, Sleep 3]\<rparr>) \<and>
   fst (kafka_connect env_demo init_state) \<noteq> Inl NoBrokersAvailableError"
proof -
  have "2 < recursion_room env_demo \<and>
        (\<forall>k<2. KafkaClient env_demo (KAFKA_HOSTS env_demo) (connect_calls init_state + k) =
                  Inl NoBrokersAvailableError) \<and>
        KafkaClient env_demo (KAFKA_HOSTS env_demo) (connect_calls init_state + 2) = Inr (Client 2) \<and>
        Inr (Client 2) \<noteq> (Inl NoBrokersAvailableError :: exn + client)"
    by (simp add: env_demo_def init_state_def)
  moreover have "init_state\<lparr>connect_calls := connect_calls init_state + 2 + 1,
                      trace := trace init_state @ retry_trace 2\<rparr> =
        init_state\<lparr>connect_calls := 3,
                   trace := [LogInfo Retrying, Sleep 3, LogInfo Retrying, Sleep 3]\<rparr>"
    by (simp add: init_state_def retry_trace_def numeral_2_eq_2)
  ultimately show ?thesis
    using kafka_connect_retries_until_connected [of env_demo init_state]
    by metis
qed

text \<open>
  The claim as the specification words it fails in two ways. An exception of another class
  raised by the construction of the client reaches the caller. And the retries are not
  unbounded: when no broker becomes available, \<^verbatim>\<open>RecursionError\<close> reaches the caller after
  as many attempts as the recursion limit leaves room for.
\<close>

theorem kafka_connect_error_counterexample:
  "kafka_connect env_socket_error init_state =
     (Inl (OtherError ''SocketDisconnectedError''), init_state\<lparr>connect_calls := 1\<rparr>) \<and>
   kafka_connect env_no_brokers init_state =
     (Inl RecursionError, init_state\<lparr>connect_calls := 990, trace := retry_trace 990\<rparr>)"
proof
  have "kafka_connect_rec env_socket_error 990 init_state =
     (Inl (OtherError ''SocketDisconnectedError''), init_state\<lparr>connect_calls := 1\<rparr>)"
    using kafka_connect_rec_retry
      [of 0 990 env_socket_error init_state "Inl (OtherError ''SocketDisconnectedError'')"]
    by (simp add: env_socket_error_def env_demo_def init_state_def retry_trace_def)
  then show "kafka_connect env_socket_error init_state =
     (Inl (OtherError ''SocketDisconnectedError''), init_state\<lparr>connect_calls := 1\<rparr>)"
    by (simp add: kafka_connect_def env_socket_error_def env_demo_def)
next
  have "kafka_connect_rec env_no_brokers 990 init_state =
     (Inl RecursionError,
      init_state\<lparr>connect_calls := connect_calls init_state + 990,
                 trace := trace init_state @ retry_trace 990\<rparr>)"
    by (rule kafka_connect_rec_exhausted) (simp add: env_no_brokers_def env_demo_def)
  then show "kafka_connect env_no_brokers init_state =
     (Inl RecursionError, init_state\<lparr>connect_calls := 990, trace := retry_trace 990\<rparr>)"
    by (simp add: kafka_connect_def env_no_brokers_def env_demo_def init_state_def)
qed

section \<open>Properties of poll\_consumer\<close>

lemma round_double_small:
  "round_double 1 = 1" "round_double 2 = 2" "round_double 3 = 3"
  by code_simp+

lemma consumer_consume_frame:
  "fst (consumer_consume e s) = queue e (consume_calls s)"
  "delivered (snd (consumer_consume e s)) =
     delivered s + (case queue e (consume_calls s) of None \<Rightarrow> 0 | Some m \<Rightarrow> 1)"
  "persisted (snd (consumer_consume e s)) = persisted s"
  "trace (snd (consumer_consume e s)) = trace s"
  "connect_calls (snd (consumer_consume e s)) = connect_calls s"
  "timer_calls (snd (consumer_consume e s)) = timer_calls s"
  "consume_calls (snd (consumer_consume e s)) = Suc (consume_calls s)"
  "\<not> auto_commit_due e (consume_calls s) \<Longrightarrow> committed (snd (consumer_consume e s)) = committed s"
  by (simp_all add: consumer_consume_def Let_def split: option.splits)

lemma poll_body_None:
  "queue e (consume_calls s) = None \<Longrightarrow>
   poll_body e v s =
     (Inr (v\<lparr>elapsed_time := fsub (timer e (timer_calls s)) (last_msg_time v)\<rparr>),
      (snd (consumer_consume e s))\<lparr>timer_calls := Suc (timer_calls s)\<rparr>)"
  using consumer_consume_frame(1,6)[of e s]
  by (cases "consumer_consume e s") (simp add: poll_body_def timer_read_def)

lemma poll_body_Some_Inr:
  "queue e (consume_calls s) = Some m \<Longrightarrow> parse_message e m = Inr parsed \<Longrightarrow>
   poll_body e v s =
     (Inr (v\<lparr>batch := batch v @ [parsed], last_msg_time := timer e (timer_calls s),
             msg_count := msg_count v + 1,
             elapsed_time := fsub (timer e (Suc (timer_calls s))) (timer e (timer_calls s))\<rparr>),
      (snd (consumer_consume e s))\<lparr>timer_calls := Suc (Suc (timer_calls s))\<rparr>)"
  using consumer_consume_frame(1,6)[of e s]
  by (cases "consumer_consume e s") (simp add: poll_body_def timer_read_def)

lemma poll_body_Some_Inl:
  "queue e (consume_calls s) = Some m \<Longrightarrow> parse_message e m = Inl x \<Longrightarrow>
   poll_body e v s = (Inl x, snd (consumer_consume e s))"
  using consumer_consume_frame(1)[of e s]
  by (cases "consumer_consume e s") (simp add: poll_body_def timer_read_def)

lemma poll_body_frame:
  assumes "poll_body e v s = (Inr v', s')"
  shows "\<exists>new. batch v' = batch v @ new \<and> msg_count v' = msg_count v + int (length new) \<and>
           delivered s' = delivered s + length new \<and> length new \<le> 1"
    and "persisted s' = persisted s"
    and "trace s' = trace s" and "connect_calls s' = connect_calls s"
    and "consume_calls s' = Suc (consume_calls s)"
    and "\<not> auto_commit_due e (consume_calls s) \<Longrightarrow> committed s' = committed s"
proof -
  note cf = consumer_consume_frame[of e s]
  consider (none) "queue e (consume_calls s) = None"
    | (ok) m parsed where "queue e (consume_calls s) = Some m" "parse_message e m = Inr parsed"
    | (bad) m x where "queue e (consume_calls s) = Some m" "parse_message e m = Inl x"
    by (cases "queue e (consume_calls s)"; cases "parse_message e (the (queue e (consume_calls s)))") auto
  then have "(\<exists>new. batch v' = batch v @ new \<and> msg_count v' = msg_count v + int (length new) \<and>
           delivered s' = delivered s + length new \<and> length new \<le> 1) \<and>
     persisted s' = persisted s \<and>
     trace s' = trace s \<and> connect_calls s' = connect_calls s \<and>
     consume_calls s' = Suc (consume_calls s) \<and>
     (\<not> auto_commit_due e (consume_calls s) \<longrightarrow> committed s' = committed s)"
  proof cases
    case none
    from assms[unfolded poll_body_None[OF none]] cf none show ?thesis by auto
  next
    case ok
    from assms[unfolded poll_body_Some_Inr[OF ok]] cf ok show ?thesis by auto
  next
    case bad
    from assms[unfolded poll_body_Some_Inl[OF bad]] show ?thesis by simp
  qed
  then show "\<exists>new. batch v' = batch v @ new \<and> msg_count v' = msg_count v + int (length new) \<and>
           delivered s' = delivered s + length new \<and> length new \<le> 1"
    and "persisted s' = persisted s"
    and "trace s' = trace s" and "connect_calls s' = connect_calls s"
    and "consume_calls s' = Suc (consume_calls s)"
    and "\<not> auto_commit_due e (consume_calls s) \<Longrightarrow> committed s' = committed s"
    by blast+
qed

lemma poll_iter_Suc_Inr:
  assumes "poll_iter e (Suc n) v s = (Inr v', s')"
  obtains v1 s1 where "poll_body e v s = (Inr v1, s1)" "poll_iter e n v1 s1 = (Inr v', s')"
  using assms by (auto split: prod.splits sum.splits)

lemma poll_iter_frame:
  "poll_iter e n v s = (Inr v', s') \<Longrightarrow>
   (\<exists>new. batch v' = batch v @ new \<and> msg_count v' = msg_count v + int (length new) \<and>
           delivered s' = delivered s + length new) \<and>
   persisted s' = persisted s \<and>
   trace s' = trace s \<and> connect_calls s' = connect_calls s"
proof (induction n arbitrary: v s)
  case 0
  then show ?case by simp
next
  case (Suc n)
  from Suc.prems obtain v1 s1 where
    b: "poll_body e v s = (Inr v1, s1)" and r: "poll_iter e n v1 s1 = (Inr v', s')"
    by (rule poll_iter_Suc_Inr)
  from poll_body_frame[OF b] obtain new1 where
    n1: "batch v1 = batch v @ new1" "msg_count v1 = msg_count v + int (length new1)"
        "delivered s1 = delivered s + length new1"
    and f1: "persisted s1 = persisted s"
        "trace s1 = trace s" "connect_calls s1 = connect_calls s"
    by blast
  from Suc.IH[OF r] obtain new2 where
    n2: "batch v' = batch v1 @ new2" "msg_count v' = msg_count v1 + int (length new2)"
        "delivered s' = delivered s1 + length new2"
    and f2: "persisted s' = persisted s1"
        "trace s' = trace s1" "connect_calls s' = connect_calls s1"
    by blast
  have "batch v' = batch v @ (new1 @ new2) \<and>
        msg_count v' = msg_count v + int (length (new1 @ new2)) \<and>
        delivered s' = delivered s + length (new1 @ new2)"
    using n1 n2 by simp
  then show ?case using f1 f2 by (metis)
qed

lemma poll_iter_committed:
  "poll_iter e n v s = (Inr v', s') \<Longrightarrow>
   consume_calls s' = consume_calls s + n \<and>
   ((\<forall>k. consume_calls s \<le> k \<and> k < consume_calls s + n \<longrightarrow> \<not> auto_commit_due e k) \<longrightarrow>
      committed s' = committed s)"
proof (induction n arbitrary: v s)
  case 0
  then show ?case by simp
next
  case (Suc n)
  from Suc.prems obtain v1 s1 where
    b: "poll_body e v s = (Inr v1, s1)" and r: "poll_iter e n v1 s1 = (Inr v', s')"
    by (rule poll_iter_Suc_Inr)
  note f = poll_body_frame(5,6)[OF b]
  from Suc.IH[OF r] have ih: "consume_calls s' = consume_calls s1 + n"
    "(\<forall>k. consume_calls s1 \<le> k \<and> k < consume_calls s1 + n \<longrightarrow> \<not> auto_commit_due e k) \<longrightarrow>
      committed s' = committed s1"
    by blast+
  show ?case
  proof (intro conjI impI)
    show "consume_calls s' = consume_calls s + Suc n" using ih(1) f(1) by simp
  next
    assume q: "\<forall>k. consume_calls s \<le> k \<and> k < consume_calls s + Suc n \<longrightarrow> \<not> auto_commit_due e k"
    then have "\<not> auto_commit_due e (consume_calls s)" by simp
    then have "committed s1 = committed s" by (rule f(2))
    moreover have "\<forall>k. consume_calls s1 \<le> k \<and> k < consume_calls s1 + n \<longrightarrow> \<not> auto_commit_due e k"
      using q f(1) by simp
    ultimately show "committed s' = committed s" using ih(2) by simp
  qed
qed

lemma guards_hold_Suc:
  assumes "guards_hold e b (Suc n) v s" "poll_body e v s = (Inr v1, s1)"
  shows "poll_guard b v" "guards_hold e b n v1 s1"
proof -
  show "poll_guard b v"
    using assms(1) unfolding guards_hold_def by (metis poll_iter.simps(1) zero_less_Suc)
  show "guards_hold e b n v1 s1"
    unfolding guards_hold_def
  proof (intro allI impI)
    fix k vk sk assume "k < n" "poll_iter e k v1 s1 = (Inr vk, sk)"
    then have "Suc k < Suc n" "poll_iter e (Suc k) v s = (Inr vk, sk)"
      using assms(2) by simp_all
    then show "poll_guard b vk"
      using assms(1) unfolding guards_hold_def by blast
  qed
qed

lemma guards_hold_SucI:
  assumes "poll_guard b v" "poll_body e v s = (Inr v1, s1)" "guards_hold e b n v1 s1"
  shows "guards_hold e b (Suc n) v s"
  unfolding guards_hold_def
proof (intro allI impI)
  fix k vk sk assume k: "k < Suc n" and it: "poll_iter e k v s = (Inr vk, sk)"
  show "poll_guard b vk"
  proof (cases k)
    case 0
    then show ?thesis using it assms(1) by simp
  next
    case (Suc j)
    then have "j < n" "poll_iter e j v1 s1 = (Inr vk, sk)"
      using k it assms(2) by simp_all
    then show ?thesis using assms(3) unfolding guards_hold_def by blast
  qed
qed

lemma poll_loop_returns:
  "poll_iter e n v s = (Inr v', s') \<Longrightarrow> \<not> poll_guard b v' \<Longrightarrow> guards_hold e b n v s \<Longrightarrow>
   poll_loop e b v s = Some (Inr (batch v'), s')"
proof (induction n arbitrary: v s)
  case 0
  then show ?case by (subst poll_loop.simps) simp
next
  case (Suc n)
  from Suc.prems(1) obtain v1 s1 where
    b: "poll_body e v s = (Inr v1, s1)" and r: "poll_iter e n v1 s1 = (Inr v', s')"
    by (rule poll_iter_Suc_Inr)
  note g = guards_hold_Suc[OF Suc.prems(3) b]
  have "poll_loop e b v s = poll_loop e b v1 s1"
    by (subst poll_loop.simps) (simp add: g(1) b)
  then show ?case
    using Suc.IH[OF r Suc.prems(2) g(2)] by simp
qed

lemma poll_loop_Some_iter:
  assumes "poll_loop e b v s = Some y"
  shows "\<forall>bt s'. y = (Inr bt, s') \<longrightarrow>
           (\<exists>n v'. poll_iter e n v s = (Inr v', s') \<and> \<not> poll_guard b v' \<and> bt = batch v' \<and>
                    guards_hold e b n v s)"
proof (rule poll_loop.raw_induct
    [where P = "\<lambda>e b v s y. \<forall>bt s'. y = (Inr bt, s') \<longrightarrow>
           (\<exists>n v'. poll_iter e n v s = (Inr v', s') \<and> \<not> poll_guard b v' \<and> bt = batch v' \<and>
                    guards_hold e b n v s)", OF _ assms])
  fix pl e b v s y
  assume IH: "\<And>e b v s y. pl e b v s = Some y \<Longrightarrow> \<forall>bt s'. y = (Inr bt, s') \<longrightarrow>
           (\<exists>n v'. poll_iter e n v s = (Inr v', s') \<and> \<not> poll_guard b v' \<and> bt = batch v' \<and>
                    guards_hold e b n v s)"
    and body: "(if poll_guard b v
      then case poll_body e v s of (Inl x, s') \<Rightarrow> Some (Inl x, s')
           | (Inr v', s') \<Rightarrow> pl e b v' s'
      else Some (Inr (batch v), s)) = Some y"
  show "\<forall>bt s'. y = (Inr bt, s') \<longrightarrow>
           (\<exists>n v'. poll_iter e n v s = (Inr v', s') \<and> \<not> poll_guard b v' \<and> bt = batch v' \<and>
                    guards_hold e b n v s)"
  proof (intro allI impI)
    fix bt s' assume y: "y = (Inr bt, s')"
    show "\<exists>n v'. poll_iter e n v s = (Inr v', s') \<and> \<not> poll_guard b v' \<and> bt = batch v' \<and>
                    guards_hold e b n v s"
    proof (cases "poll_guard b v")
      case False
      with body y have "bt = batch v" "s' = s" by simp_all
      moreover have "guards_hold e b 0 v s" by (simp add: guards_hold_def)
      ultimately show ?thesis using False
        by (intro exI[of _ 0] exI[of _ v]) simp
    next
      case True
      obtain r s1 where pb: "poll_body e v s = (r, s1)" by (cases "poll_body e v s")
      show ?thesis
      proof (cases r)
        case (Inl x)
        with body True pb y show ?thesis by simp
      next
        case (Inr v1)
        with body True pb have "pl e b v1 s1 = Some y" by simp
        from IH[OF this] y obtain n v' where
          n: "poll_iter e n v1 s1 = (Inr v', s')" "\<not> poll_guard b v'" "bt = batch v'"
             "guards_hold e b n v1 s1"
          by blast
        have "poll_iter e (Suc n) v s = (Inr v', s')"
          using pb Inr n(1) by simp
        moreover have "guards_hold e b (Suc n) v s"
          using guards_hold_SucI[OF True _ n(4)] pb Inr by simp
        ultimately show ?thesis using n(2,3) by blast
      qed
    qed
  qed
qed

lemma poll_loop_iff:
  "poll_loop e b v s = Some (Inr bt, s') \<longleftrightarrow>
     (\<exists>n v'. poll_iter e n v s = (Inr v', s') \<and> \<not> poll_guard b v' \<and> bt = batch v' \<and>
              guards_hold e b n v s)"
  using poll_loop_returns poll_loop_Some_iter by blast

lemma poll_iter_count_bound:
  "poll_iter e n v s = (Inr v', s') \<Longrightarrow> guards_hold e b n v s \<Longrightarrow>
   msg_count v \<le> max 0 b \<Longrightarrow> msg_count v' \<le> max 0 b"
proof (induction n arbitrary: v s)
  case 0
  then show ?case by simp
next
  case (Suc n)
  from Suc.prems(1) obtain v1 s1 where
    b: "poll_body e v s = (Inr v1, s1)" and r: "poll_iter e n v1 s1 = (Inr v', s')"
    by (rule poll_iter_Suc_Inr)
  note g = guards_hold_Suc[OF Suc.prems(2) b]
  from poll_body_frame(1)[OF b] obtain new1 :: "string list" where
    "msg_count v1 = msg_count v + int (length new1)" "length new1 \<le> 1"
    by blast
  moreover have "msg_count v < b" using g(1) by (simp add: poll_guard_def)
  ultimately have "msg_count v1 \<le> max 0 b" by simp
  then show ?case using Suc.IH[OF r g(2)] by simp
qed

lemma poll_consumer_unfold:
  "poll_consumer e b s =
     poll_loop e b \<lparr>batch = [], elapsed_time = 0, last_msg_time = timer e (timer_calls s), msg_count = 0\<rparr>
       (s\<lparr>timer_calls := Suc (timer_calls s)\<rparr>)"
  by (simp add: poll_consumer_def timer_read_def poll_init_def)

lemma poll_consumer_frame:
  assumes "poll_consumer e b s = Some (Inr bt, s')"
  shows "delivered s' = delivered s + length bt"
    "persisted s' = persisted s" "trace s' = trace s" "connect_calls s' = connect_calls s"
    "consume_calls s \<le> consume_calls s'"
    "(\<forall>k. consume_calls s \<le> k \<and> k < consume_calls s' \<longrightarrow> \<not> auto_commit_due e k) \<Longrightarrow>
       committed s' = committed s"
proof -
  let ?v = "\<lparr>batch = [], elapsed_time = 0, last_msg_time = timer e (timer_calls s), msg_count = 0\<rparr>"
  let ?s = "s\<lparr>timer_calls := Suc (timer_calls s)\<rparr>"
  from assms obtain n v' where
    it: "poll_iter e n ?v ?s = (Inr v', s')"
    and bt: "bt = batch v'"
    unfolding poll_consumer_unfold poll_loop_iff by blast
  from poll_iter_frame[OF it] bt
  show "delivered s' = delivered s + length bt"
    "persisted s' = persisted s" "trace s' = trace s" "connect_calls s' = connect_calls s"
    by auto
  from poll_iter_committed[OF it]
  have c: "consume_calls s' = consume_calls s + n"
    "(\<forall>k. consume_calls s \<le> k \<and> k < consume_calls s + n \<longrightarrow> \<not> auto_commit_due e k) \<longrightarrow>
      committed s' = committed s"
    by simp_all
  show "consume_calls s \<le> consume_calls s'" using c(1) by simp
  show "committed s' = committed s"
    if "\<forall>k. consume_calls s \<le> k \<and> k < consume_calls s' \<longrightarrow> \<not> auto_commit_due e k"
    using that c by simp
qed

lemmas poll_eval =
  poll_consumer_unfold poll_loop.simps poll_guard_def poll_body_def
  consumer_consume_def timer_read_def parse_message_def max_wait_seconds_def fsub_def
  round_double_small auto_commit_enable_def Let_def init_state_def

lemma poll_consumer_env_demo_2:
  "poll_consumer env_demo 2 init_state =
     Some (Inr [''u0'', ''u1''],
           init_state\<lparr>timer_calls := 5, consume_calls := 2, delivered := 2\<rparr>)"
  by (simp add: poll_eval env_demo_def)

lemma poll_consumer_env_demo_5:
  "poll_consumer env_demo 5 init_state =
     Some (Inr [''u0'', ''u1'', ''u2''],
           init_state\<lparr>timer_calls := 9, consume_calls := 5, delivered := 3\<rparr>)"
  by (simp add: poll_eval env_demo_def)

lemma fsub_boundary: "fsub 3 (1 / 1152921504606846976) = 3"
  by code_simp

lemma poll_consumer_env_boundary:
  "poll_consumer env_boundary 1 init_state =
     Some (Inr [], init_state\<lparr>timer_calls := 2, consume_calls := 1\<rparr>)"
  by (simp add: poll_consumer_unfold poll_loop.simps poll_guard_def poll_body_def
      consumer_consume_def timer_read_def parse_message_def max_wait_seconds_def
      auto_commit_enable_def Let_def init_state_def env_boundary_def env_demo_def fsub_boundary)

text \<open>
  Claim C4, as the code has it. A batch returned by \<open>poll_consumer\<close> has at most
  \<open>max 0 batch_size\<close> elements: between 0 and \<open>batch_size\<close> when \<open>batch_size\<close> is not
  negative, and none when it is negative.
\<close>

theorem poll_consumer_batch_length:
  assumes "poll_consumer e b s = Some (Inr bt, s')"
  shows "int (length bt) \<le> max 0 b"
proof -
  let ?v = "\<lparr>batch = [], elapsed_time = 0, last_msg_time = timer e (timer_calls s), msg_count = 0\<rparr>"
  let ?s = "s\<lparr>timer_calls := Suc (timer_calls s)\<rparr>"
  from assms obtain n v' where
    it: "poll_iter e n ?v ?s = (Inr v', s')" and bt: "bt = batch v'"
    and g: "guards_hold e b n ?v ?s"
    unfolding poll_consumer_unfold poll_loop_iff by blast
  have "msg_count v' \<le> max 0 b"
    using poll_iter_count_bound[OF it g] by simp
  moreover have "msg_count v' = int (length bt)"
    using poll_iter_frame[OF it] bt by auto
  ultimately show ?thesis by simp
qed

theorem poll_consumer_batch_length_witness:
  "poll_consumer env_demo 2 init_state =
     Some (Inr [''u0'', ''u1''],
           init_state\<lparr>timer_calls := 5, consume_calls := 2, delivered := 2\<rparr>) \<and>
   int (length [''u0'', ''u1'']) \<le> max 0 2"
  using poll_consumer_env_demo_2 poll_consumer_batch_length [OF poll_consumer_env_demo_2]
  by simp

text \<open>
  With the batch size \<open>- 1\<close> the returned batch is empty, and its length 0 is above the
  batch size.
\<close>

theorem poll_consumer_batch_length_counterexample:
  "poll_consumer env_demo (- 1) init_state = Some (Inr [], init_state\<lparr>timer_calls := Suc 0\<rparr>) \<and>
   \<not> int (length ([] :: string list)) \<le> - 1"
  by (simp add: poll_consumer_unfold poll_loop.simps poll_guard_def init_state_def)

text \<open>
  Claim C3, as the code has it. The loop starts with an empty batch, the count 0, no
  elapsed time and the idle timer \<open>last_msg_time\<close> at the clock reading taken when the
  poll starts. \<open>poll_consumer\<close> returns the batch \<open>bt\<close> exactly when some number \<open>n\<close> of
  runs of the loop body leaves the variables in a state \<open>v'\<close> where the count of accepted
  messages equals \<open>max 0 batch_size\<close> (that is \<open>batch_size\<close>, unless it is negative) or the
  elapsed idle time is at least \<open>max_wait_seconds = 3\<close>, the guard having held before each
  of these \<open>n\<close> runs; the batch returned is the one accumulated and the count is its
  length. A run of the body on an empty receive leaves the idle timer, the batch and the
  count as they are and sets the elapsed time to the clock reading minus the idle timer,
  as floats subtract; a run that accepts a message appends it, adds one to the count and
  sets the idle timer to the clock reading taken then.
\<close>

theorem poll_consumer_returns_at_first_exit:
  "(poll_consumer e b s = Some (Inr bt, s') \<longleftrightarrow>
      (\<exists>n v'. poll_iter e n
                 \<lparr>batch = [], elapsed_time = 0, last_msg_time = timer e (timer_calls s), msg_count = 0\<rparr>
                 (s\<lparr>timer_calls := Suc (timer_calls s)\<rparr>) = (Inr v', s') \<and>
               guards_hold e b n
                 \<lparr>batch = [], elapsed_time = 0, last_msg_time = timer e (timer_calls s), msg_count = 0\<rparr>
                 (s\<lparr>timer_calls := Suc (timer_calls s)\<rparr>) \<and>
               (msg_count v' = max 0 b \<or> max_wait_seconds \<le> elapsed_time v') \<and>
               msg_count v' = int (length bt) \<and> bt = batch v')) \<and>
   max_wait_seconds = 3 \<and>
   (queue e (consume_calls t) = None \<longrightarrow>
      fst (poll_body e v t) =
        Inr (v\<lparr>elapsed_time := fsub (timer e (timer_calls t)) (last_msg_time v)\<rparr>)) \<and>
   (queue e (consume_calls t) = Some m \<and> parse_message e m = Inr parsed \<longrightarrow>
      fst (poll_body e v t) =
        Inr (v\<lparr>batch := batch v @ [parsed], last_msg_time := timer e (timer_calls t),
               msg_count := msg_count v + 1,
               elapsed_time := fsub (timer e (Suc (timer_calls t))) (timer e (timer_calls t))\<rparr>))"
proof -
  let ?v = "\<lparr>batch = [], elapsed_time = 0, last_msg_time = timer e (timer_calls s), msg_count = 0\<rparr>"
  let ?s = "s\<lparr>timer_calls := Suc (timer_calls s)\<rparr>"
  have "poll_consumer e b s = Some (Inr bt, s') \<longleftrightarrow>
      (\<exists>n v'. poll_iter e n ?v ?s = (Inr v', s') \<and> guards_hold e b n ?v ?s \<and>
               (msg_count v' = max 0 b \<or> max_wait_seconds \<le> elapsed_time v') \<and>
               msg_count v' = int (length bt) \<and> bt = batch v')"
  proof
    assume "poll_consumer e b s = Some (Inr bt, s')"
    then obtain n v' where
      it: "poll_iter e n ?v ?s = (Inr v', s')" and bt: "bt = batch v'"
      and g: "guards_hold e b n ?v ?s" and ng: "\<not> poll_guard b v'"
      unfolding poll_consumer_unfold poll_loop_iff by blast
    have le: "msg_count v' \<le> max 0 b"
      using poll_iter_count_bound[OF it g] by simp
    have len: "msg_count v' = int (length bt)"
      using poll_iter_frame[OF it] bt by auto
    have "msg_count v' = max 0 b \<or> max_wait_seconds \<le> elapsed_time v'"
      using ng le len by (auto simp: poll_guard_def)
    with it g len bt show "\<exists>n v'. poll_iter e n ?v ?s = (Inr v', s') \<and> guards_hold e b n ?v ?s \<and>
               (msg_count v' = max 0 b \<or> max_wait_seconds \<le> elapsed_time v') \<and>
               msg_count v' = int (length bt) \<and> bt = batch v'"
      by blast
  next
    assume "\<exists>n v'. poll_iter e n ?v ?s = (Inr v', s') \<and> guards_hold e b n ?v ?s \<and>
               (msg_count v' = max 0 b \<or> max_wait_seconds \<le> elapsed_time v') \<and>
               msg_count v' = int (length bt) \<and> bt = batch v'"
    then obtain n v' where
      it: "poll_iter e n ?v ?s = (Inr v', s')" and bt: "bt = batch v'"
      and g: "guards_hold e b n ?v ?s"
      and ex: "msg_count v' = max 0 b \<or> max_wait_seconds \<le> elapsed_time v'"
      by blast
    from ex have "\<not> poll_guard b v'" by (auto simp: poll_guard_def)
    from poll_loop_returns[OF it this g] bt
    show "poll_consumer e b s = Some (Inr bt, s')"
      by (simp add: poll_consumer_unfold)
  qed
  moreover have "max_wait_seconds = 3" by (simp add: max_wait_seconds_def)
  moreover have "queue e (consume_calls t) = None \<longrightarrow>
      fst (poll_body e v t) =
        Inr (v\<lparr>elapsed_time := fsub (timer e (timer_calls t)) (last_msg_time v)\<rparr>)"
    by (simp add: poll_body_None)
  moreover have "queue e (consume_calls t) = Some m \<and> parse_message e m = Inr parsed \<longrightarrow>
      fst (poll_body e v t) =
        Inr (v\<lparr>batch := batch v @ [parsed], last_msg_time := timer e (timer_calls t),
               msg_count := msg_count v + 1,
               elapsed_time := fsub (timer e (Suc (timer_calls t))) (timer e (timer_calls t))\<rparr>)"
    by (simp add: poll_body_Some_Inr)
  ultimately show ?thesis by blast
qed

theorem poll_consumer_returns_at_first_exit_witness:
  "poll_consumer env_demo 5 init_state =
     Some (Inr [''u0'', ''u1'', ''u2''],
           init_state\<lparr>timer_calls := 9, consume_calls := 5, delivered := 3\<rparr>) \<and>
   (\<exists>n v'. poll_iter env_demo n
              \<lparr>batch = [], elapsed_time = 0,
               last_msg_time = timer env_demo (timer_calls init_state), msg_count = 0\<rparr>
              (init_state\<lparr>timer_calls := Suc (timer_calls init_state)\<rparr>) =
              (Inr v', init_state\<lparr>timer_calls := 9, consume_calls := 5, delivered := 3\<rparr>) \<and>
            guards_hold env_demo 5 n
              \<lparr>batch = [], elapsed_time = 0,
               last_msg_time = timer env_demo (timer_calls init_state), msg_count = 0\<rparr>
              (init_state\<lparr>timer_calls := Suc (timer_calls init_state)\<rparr>) \<and>
            (msg_count v' = max 0 5 \<or> max_wait_seconds \<le> elapsed_time v') \<and>
            msg_count v' = int (length [''u0'', ''u1'', ''u2'']) \<and>
            [''u0'', ''u1'', ''u2''] = batch v') \<and>
   poll_consumer env_boundary 1 init_state =
     Some (Inr [], init_state\<lparr>timer_calls := 2, consume_calls := 1\<rparr>) \<and>
   queue env_boundary (consume_calls init_state) = None \<and>
   fst (poll_body env_boundary
          \<lparr>batch = [], elapsed_time = 0, last_msg_time = 1 / 2 ^ 60, msg_count = 0\<rparr>
          (init_state\<lparr>timer_calls := 1\<rparr>)) =
     Inr \<lparr>batch = [], elapsed_time = 3, last_msg_time = 1 / 2 ^ 60, msg_count = 0\<rparr>"
proof -
  have none: "queue env_boundary (consume_calls (init_state\<lparr>timer_calls := 1\<rparr>)) = None"
    by (simp add: env_boundary_def env_demo_def init_state_def)
  have none': "queue env_boundary (consume_calls init_state) = None"
    by (simp add: env_boundary_def env_demo_def init_state_def)
  have el: "\<lparr>batch = [], elapsed_time = 0, last_msg_time = 1 / 2 ^ 60, msg_count = 0\<rparr>
      \<lparr>elapsed_time := fsub (timer env_boundary (timer_calls (init_state\<lparr>timer_calls := 1\<rparr>)))
         (last_msg_time \<lparr>batch = [], elapsed_time = 0, last_msg_time = 1 / 2 ^ 60, msg_count = 0\<rparr>)\<rparr> =
      \<lparr>batch = [], elapsed_time = 3, last_msg_time = 1 / 2 ^ 60, msg_count = (0::int)\<rparr>"
    by (simp add: env_boundary_def env_demo_def init_state_def fsub_boundary)
  show ?thesis
    using poll_consumer_env_demo_5 poll_consumer_env_boundary none none' el
      poll_consumer_returns_at_first_exit
        [of env_demo 5 init_state "[''u0'', ''u1'', ''u2'']"
            "init_state\<lparr>timer_calls := 9, consume_calls := 5, delivered := 3\<rparr>"]
      poll_consumer_returns_at_first_exit
        [of env_boundary 1 init_state "[]" init_state "init_state\<lparr>timer_calls := 1\<rparr>"
            "\<lparr>batch = [], elapsed_time = 0, last_msg_time = 1 / 2 ^ 60, msg_count = 0\<rparr>"]
    by (simp only:)
qed

text \<open>
  With the batch size \<open>- 1\<close> the loop is left at once: the batch is returned although the
  count, 0, is not the batch size and no time has elapsed. And with the clock at
  \<open>2 ^ - 60\<close> when the poll starts and at 3 after an empty receive, the batch is returned
  although less than 3 has elapsed: the difference of the two floats is the float 3.
\<close>

theorem poll_consumer_returns_counterexample:
  "poll_consumer env_demo (- 1) init_state =
     poll_loop env_demo (- 1)
       \<lparr>batch = [], elapsed_time = 0, last_msg_time = 0, msg_count = 0\<rparr>
       (init_state\<lparr>timer_calls := Suc 0\<rparr>) \<and>
   poll_loop env_demo (- 1)
       \<lparr>batch = [], elapsed_time = 0, last_msg_time = 0, msg_count = 0\<rparr>
       (init_state\<lparr>timer_calls := Suc 0\<rparr>) =
     Some (Inr [], init_state\<lparr>timer_calls := Suc 0\<rparr>) \<and>
   msg_count \<lparr>batch = [], elapsed_time = 0, last_msg_time = 0, msg_count = 0\<rparr> \<noteq> - 1 \<and>
   \<not> max_wait_seconds \<le> elapsed_time \<lparr>batch = [], elapsed_time = 0, last_msg_time = 0, msg_count = 0\<rparr> \<and>
   poll_consumer env_boundary 1 init_state =
     Some (Inr [], init_state\<lparr>timer_calls := 2, consume_calls := 1\<rparr>) \<and>
   timer env_boundary 1 - timer env_boundary 0 < max_wait_seconds"
  using poll_consumer_env_boundary
  by (simp add: poll_consumer_unfold poll_loop.simps poll_guard_def
      max_wait_seconds_def env_boundary_def env_demo_def init_state_def)

text \<open>
  Claim C9. With a batch size of zero or less the guard of the loop is false at once:
  \<open>poll_consumer\<close> returns the empty batch after its one initial reading of the clock; the
  consumer is not asked for a message and the clock is not read again.
\<close>

theorem poll_consumer_nonpositive_batch_size:
  "batch_size \<le> 0 \<Longrightarrow>
   poll_consumer e batch_size s = Some (Inr [], s\<lparr>timer_calls := Suc (timer_calls s)\<rparr>)"
  by (subst poll_consumer_def, simp add: timer_read_def, subst poll_loop.simps)
     (simp add: poll_guard_def poll_init_def)

theorem poll_consumer_nonpositive_batch_size_witness:
  "(0::int) \<le> 0 \<and>
   poll_consumer env_demo 0 init_state = Some (Inr [], init_state\<lparr>timer_calls := Suc 0\<rparr>) \<and>
   consume_calls (init_state\<lparr>timer_calls := Suc 0\<rparr>) = consume_calls init_state"
  using poll_consumer_nonpositive_batch_size [of 0 env_demo init_state]
  by (simp add: init_state_def)

section \<open>Properties of process\_image\<close>

lemma thumbnail_image_Inr:
  "thumbnail_image e img = Inr thumb \<longleftrightarrow>
     (\<exists>img'. img_thumbnail e (TARGET_RESOLUTION e) NEAREST img = Inr img' \<and>
            img_save e img' ''JPEG'' = Inr thumb)"
  by (auto simp: thumbnail_image_def split: sum.splits)

lemma process_image_env_demo:
  "process_image env_demo ''u0'' init_state =
     (Inr (), init_state\<lparr>persisted := [[255, 216, 255]],
        trace := [HttpGet ''u0'', BodyRead (Response 2), RunInExecutor (ImageOpen [255, 216]),
                  RunInExecutor (ThumbnailImage (Image 2)), Persist [255, 216, 255]]\<rparr>)"
  by (simp add: process_image_def persist_def thumbnail_image_def emit_def env_demo_def save_thumbnail_local_def init_state_def)

text \<open>
  Claim C5. Whatever the URL, the effects of \<open>process_image\<close> are, in this order and each
  at most once: the GET of the URL, the read of the body of the response, the decoding of
  the body, run in the executor, the call of \<open>thumbnail_image\<close> on the image, run in the
  executor (it resizes to \<open>TARGET_RESOLUTION\<close> with \<open>NEAREST\<close> and saves as JPEG), and the
  call of the persister on the buffer that call returned. The trace stops at the first
  step that raises, and the exception of that step is the result; no step is made again
  and nothing else ends a step.
\<close>

theorem process_image_steps:
  assumes "process_image e url s = (r, s')"
  shows "\<exists>evs. trace s' = trace s @ evs \<and>
    ((\<exists>img_resp buffer img img' thumb.
        session_get e url = Inr img_resp \<and> resp_read e img_resp = Inr buffer \<and>
        Image_open e buffer = Inr img \<and>
        img_thumbnail e (TARGET_RESOLUTION e) NEAREST img = Inr img' \<and>
        img_save e img' ''JPEG'' = Inr thumb \<and>
        evs = [HttpGet url, BodyRead img_resp, RunInExecutor (ImageOpen buffer),
               RunInExecutor (ThumbnailImage img), Persist thumb] \<and>
        r = persister e thumb) \<or>
     (\<exists>x. r = Inl x \<and> session_get e url = Inl x \<and> evs = [HttpGet url]) \<or>
     (\<exists>x img_resp. r = Inl x \<and> session_get e url = Inr img_resp \<and>
        resp_read e img_resp = Inl x \<and> evs = [HttpGet url, BodyRead img_resp]) \<or>
     (\<exists>x img_resp buffer. r = Inl x \<and> session_get e url = Inr img_resp \<and>
        resp_read e img_resp = Inr buffer \<and> Image_open e buffer = Inl x \<and>
        evs = [HttpGet url, BodyRead img_resp, RunInExecutor (ImageOpen buffer)]) \<or>
     (\<exists>x img_resp buffer img. r = Inl x \<and> session_get e url = Inr img_resp \<and>
        resp_read e img_resp = Inr buffer \<and> Image_open e buffer = Inr img \<and>
        thumbnail_image e img = Inl x \<and>
        evs = [HttpGet url, BodyRead img_resp, RunInExecutor (ImageOpen buffer),
               RunInExecutor (ThumbnailImage img)]))"
  using assms
  unfolding process_image_def persist_def emit_def Let_def
  by (auto simp: thumbnail_image_Inr split: sum.splits)

theorem process_image_steps_witness:
  "process_image env_demo ''u0'' init_state =
     (Inr (), init_state\<lparr>persisted := [[255, 216, 255]],
        trace := [HttpGet ''u0'', BodyRead (Response 2), RunInExecutor (ImageOpen [255, 216]),
                  RunInExecutor (ThumbnailImage (Image 2)), Persist [255, 216, 255]]\<rparr>) \<and>
   session_get env_demo ''u0'' = Inr (Response 2) \<and>
   resp_read env_demo (Response 2) = Inr [255, 216] \<and>
   Image_open env_demo [255, 216] = Inr (Image 2) \<and>
   img_save env_demo (Image 2) ''JPEG'' = Inr [255, 216, 255] \<and>
   persister env_demo [255, 216, 255] = Inr ()"
  using process_image_env_demo process_image_steps [OF process_image_env_demo]
  by (simp add: env_demo_def save_thumbnail_local_def)

text \<open>
  Claim C10. In one run of \<open>process_image\<close> the persister is called at most once. It is
  called only when the fetch, the read, the decoding and the resizing have all succeeded,
  as the last effect after theirs, and with the buffer the resizing returned; when one of
  the four raises, that exception is the result, the persister is not called and nothing
  is stored.
\<close>

theorem process_image_persister_once:
  assumes "process_image e url s = (r, s')"
  shows "\<exists>evs. trace s' = trace s @ evs \<and>
    (case thumbnail_of e url of
       Inl x \<Rightarrow> r = Inl x \<and> persist_calls evs = [] \<and> persisted s' = persisted s
     | Inr thumb \<Rightarrow>
         (\<exists>pre. evs = pre @ [Persist thumb] \<and> persist_calls pre = [] \<and> length pre = 4) \<and>
         persist_calls evs = [thumb] \<and> r = persister e thumb \<and>
         persisted s' = persisted s @ (case r of Inl x \<Rightarrow> [] | Inr u \<Rightarrow> [thumb]))"
  using assms
  unfolding process_image_def persist_def thumbnail_of_def image_of_def body_of_def emit_def
    Let_def persist_calls_def
  by (auto split: sum.splits)

theorem process_image_persister_once_witness:
  "process_image env_demo ''u0'' init_state =
     (Inr (), init_state\<lparr>persisted := [[255, 216, 255]],
        trace := [HttpGet ''u0'', BodyRead (Response 2), RunInExecutor (ImageOpen [255, 216]),
                  RunInExecutor (ThumbnailImage (Image 2)), Persist [255, 216, 255]]\<rparr>) \<and>
   thumbnail_of env_demo ''u0'' = Inr [255, 216, 255] \<and>
   persist_calls [HttpGet ''u0'', BodyRead (Response 2), RunInExecutor (ImageOpen [255, 216]),
                  RunInExecutor (ThumbnailImage (Image 2)), Persist [255, 216, 255]] =
     [[255, 216, 255]]"
  using process_image_env_demo process_image_persister_once [OF process_image_env_demo]
  by (simp add: env_demo_def save_thumbnail_local_def thumbnail_of_def image_of_def body_of_def thumbnail_image_def
      persist_calls_def)

text \<open>
  Run alone, the coroutine taken one await at a time does what \<open>process_image\<close> does.
\<close>

lemma run_task_process_image:
  "run_task e 5 (u, AtGet) s =
     (case process_image e u s of
        (Inl x, s') \<Rightarrow> ((u, Failed x), s')
      | (Inr _, s') \<Rightarrow> ((u, Finished), s'))"
  by (simp add: eval_nat_numeral process_image_def Let_def split: sum.splits prod.splits)

section \<open>Properties of the join\<close>

lemma commit_calls_emit:
  "commit_calls (emit ev s) = commit_calls s + (if ev = CommitOffsets then 1 else 0)"
  by (simp add: commit_calls_def emit_def)

lemma task_step_frame:
  assumes "task_step e t s = (t', s')"
  shows "fst t' = fst t" "delivered s' = delivered s" "committed s' = committed s"
    "timer_calls s' = timer_calls s" "consume_calls s' = consume_calls s"
    "connect_calls s' = connect_calls s" "commit_calls s' = commit_calls s"
proof -
  obtain u st where t: "t = (u, st)" by (cases t)
  have "fst t' = fst t \<and> delivered s' = delivered s \<and> committed s' = committed s \<and>
    timer_calls s' = timer_calls s \<and> consume_calls s' = consume_calls s \<and>
    connect_calls s' = connect_calls s \<and> commit_calls s' = commit_calls s"
    using assms unfolding t
    by (cases st) (auto simp: emit_def persist_def commit_calls_def Let_def split: sum.splits)
  then show "fst t' = fst t" "delivered s' = delivered s" "committed s' = committed s"
    "timer_calls s' = timer_calls s" "consume_calls s' = consume_calls s"
    "connect_calls s' = connect_calls s" "commit_calls s' = commit_calls s"
    by simp_all
qed

lemma task_ok_mono: "set new \<subseteq> set new' \<Longrightarrow> task_ok e new t \<Longrightarrow> task_ok e new' t"
proof -
  assume a: "set new \<subseteq> set new'" "task_ok e new t"
  obtain u st where t: "t = (u, st)" by (cases t)
  show ?thesis using a unfolding t by (cases st) (auto split: sum.splits)
qed

lemma task_step_ok:
  assumes "task_step e t s = (t', s')" "task_ok e new t" "persisted s = p0 @ new"
  shows "\<exists>new'. persisted s' = p0 @ new' \<and> set new \<subseteq> set new' \<and> task_ok e new' t'"
proof -
  obtain u st where t: "t = (u, st)" by (cases t)
  show ?thesis
  proof (cases st)
    case (AtPersist thumb)
    then show ?thesis using assms unfolding t
      by (cases "persister e thumb") (auto simp: persist_def emit_def Let_def)
  next
    case AtGet
    then show ?thesis using assms unfolding t
      by (auto simp: emit_def split: sum.splits)
  next
    case (AtRead r)
    then show ?thesis using assms unfolding t
      by (auto simp: emit_def body_of_def split: sum.splits)
  next
    case (AtOpen b)
    then show ?thesis using assms unfolding t
      by (auto simp: emit_def image_of_def split: sum.splits)
  next
    case (AtThumbnail i)
    then show ?thesis using assms unfolding t
      by (auto simp: emit_def thumbnail_of_def split: sum.splits)
  next
    case Finished
    then show ?thesis using assms unfolding t by auto
  next
    case (Failed x)
    then show ?thesis using assms unfolding t by auto
  qed
qed

lemma task_exception_Some: "task_exception t = Some x \<longleftrightarrow> (\<exists>u. t = (u, Failed x))"
  by (cases t rule: task_exception.cases) auto

lemma all_finished_iff: "all_finished ts \<longleftrightarrow> (\<forall>t\<in>set ts. snd t = Finished)"
  by (simp add: all_finished_def list_all_iff)

lemma update_cases: "t \<in> set (ts[i := t1]) \<Longrightarrow> t = t1 \<or> t \<in> set ts"
  by (metis insert_iff set_update_subset_insert subsetD)

lemma task_step_failed: "task_step e (u, Failed x) s = ((u, Failed x), s)"
  by simp

lemma update_failed_stays:
  assumes "(u, Failed x) \<in> set ts" "i < length ts" "task_step e (ts ! i) s = (t1, s1)"
  shows "(u, Failed x) \<in> set (ts[i := t1])"
proof -
  from assms(1) obtain p where p: "p < length ts" "ts ! p = (u, Failed x)"
    by (auto simp: in_set_conv_nth)
  show ?thesis
  proof (cases "p = i")
    case True
    with p assms(3) have "t1 = (u, Failed x)" by simp
    then show ?thesis using assms(2) by (simp add: set_update_memI)
  next
    case False
    then have "(ts[i := t1]) ! p = (u, Failed x)" using p by simp
    moreover have "p < length (ts[i := t1])" using p by simp
    ultimately show ?thesis by (metis nth_mem)
  qed
qed

lemma run_late_frame:
  "run_late e late ts s = (ts', s') \<Longrightarrow>
   map fst ts' = map fst ts \<and> delivered s' = delivered s \<and> committed s' = committed s \<and>
   timer_calls s' = timer_calls s \<and> consume_calls s' = consume_calls s \<and>
   connect_calls s' = connect_calls s \<and> commit_calls s' = commit_calls s"
proof (induction late arbitrary: ts s)
  case Nil
  then show ?case by simp
next
  case (Cons i late)
  show ?case
  proof (cases "i < length ts")
    case False
    with Cons.prems have "run_late e late ts s = (ts', s')" by simp
    from Cons.IH[OF this] show ?thesis .
  next
    case True
    obtain t1 s1 where st: "task_step e (ts ! i) s = (t1, s1)" by (cases "task_step e (ts ! i) s")
    note fr = task_step_frame[OF st]
    have keep: "map fst (ts[i := t1]) = map fst ts"
      using fr(1) True by (simp add: map_update list_update_same_conv)
    from True st Cons.prems have "run_late e late (ts[i := t1]) s1 = (ts', s')" by simp
    from Cons.IH[OF this] show ?thesis using keep fr by simp
  qed
qed

lemma run_late_ok:
  "run_late e late ts s = (ts', s') \<Longrightarrow> \<forall>t\<in>set ts. task_ok e new t \<Longrightarrow>
   persisted s = p0 @ new \<Longrightarrow>
   \<exists>new'. persisted s' = p0 @ new' \<and> (\<forall>t\<in>set ts'. task_ok e new' t)"
proof (induction late arbitrary: ts s new)
  case Nil
  then show ?case by auto
next
  case (Cons i late)
  show ?case
  proof (cases "i < length ts")
    case False
    with Cons.prems have "run_late e late ts s = (ts', s')" by simp
    from Cons.IH[OF this Cons.prems(2,3)] show ?thesis .
  next
    case True
    obtain t1 s1 where st: "task_step e (ts ! i) s = (t1, s1)" by (cases "task_step e (ts ! i) s")
    have "task_ok e new (ts ! i)" using Cons.prems(2) True by simp
    from task_step_ok[OF st this Cons.prems(3)] obtain new1 where
      n1: "persisted s1 = p0 @ new1" "set new \<subseteq> set new1" "task_ok e new1 t1"
      by blast
    have ok1: "\<forall>t\<in>set (ts[i := t1]). task_ok e new1 t"
    proof
      fix t assume "t \<in> set (ts[i := t1])"
      then have "t = t1 \<or> t \<in> set ts" by (rule update_cases)
      then show "task_ok e new1 t"
        using n1(2,3) Cons.prems(2) task_ok_mono by blast
    qed
    from True st Cons.prems(1) have "run_late e late (ts[i := t1]) s1 = (ts', s')" by simp
    from Cons.IH[OF this ok1 n1(1)] show ?thesis .
  qed
qed

lemma run_late_failed_stays:
  "run_late e late ts s = (ts', s') \<Longrightarrow> (u, Failed x) \<in> set ts \<Longrightarrow> (u, Failed x) \<in> set ts'"
proof (induction late arbitrary: ts s)
  case Nil
  then show ?case by simp
next
  case (Cons i late)
  show ?case
  proof (cases "i < length ts")
    case False
    with Cons.prems have "run_late e late ts s = (ts', s')" by simp
    from Cons.IH[OF this Cons.prems(2)] show ?thesis .
  next
    case True
    obtain t1 s1 where st: "task_step e (ts ! i) s = (t1, s1)" by (cases "task_step e (ts ! i) s")
    from True st Cons.prems(1) have "run_late e late (ts[i := t1]) s1 = (ts', s')" by simp
    from Cons.IH[OF this update_failed_stays[OF Cons.prems(2) True st]] show ?thesis .
  qed
qed

lemma gather_frame:
  "gather e sched late ts s = (j, ts', s') \<Longrightarrow>
   map fst ts' = map fst ts \<and> delivered s' = delivered s \<and> committed s' = committed s \<and>
   timer_calls s' = timer_calls s \<and> consume_calls s' = consume_calls s \<and>
   connect_calls s' = connect_calls s \<and> commit_calls s' = commit_calls s"
proof (induction sched arbitrary: ts s)
  case Nil
  then show ?case by (simp split: if_splits)
next
  case (Cons i sched)
  show ?case
  proof (cases "all_finished ts")
    case True
    with Cons.prems show ?thesis by simp
  next
    case nf: False
    show ?thesis
    proof (cases "i < length ts")
      case False
      with nf Cons.prems have "gather e sched late ts s = (j, ts', s')" by simp
      from Cons.IH[OF this] show ?thesis .
    next
      case True
      obtain t1 s1 where st: "task_step e (ts ! i) s = (t1, s1)" by (cases "task_step e (ts ! i) s")
      note fr = task_step_frame[OF st]
      have keep: "map fst (ts[i := t1]) = map fst ts"
        using fr(1) True by (simp add: map_update list_update_same_conv)
      show ?thesis
      proof (cases "task_exception t1")
        case (Some x)
        with nf True st Cons.prems have "run_late e late (ts[i := t1]) s1 = (ts', s')"
          by (simp split: prod.splits)
        from run_late_frame[OF this] show ?thesis using keep fr by simp
      next
        case None
        with nf True st Cons.prems have "gather e sched late (ts[i := t1]) s1 = (j, ts', s')" by simp
        from Cons.IH[OF this] show ?thesis using keep fr by simp
      qed
    qed
  qed
qed

lemma gather_join:
  "gather e sched late ts s = (j, ts', s') \<Longrightarrow>
   (j = Joined \<longleftrightarrow> all_finished ts') \<and> (\<forall>x. j = JoinRaised x \<longrightarrow> (\<exists>u. (u, Failed x) \<in> set ts'))"
proof (induction sched arbitrary: ts s)
  case Nil
  then show ?case by (auto split: if_splits)
next
  case (Cons i sched)
  show ?case
  proof (cases "all_finished ts")
    case True
    with Cons.prems show ?thesis by auto
  next
    case nf: False
    show ?thesis
    proof (cases "i < length ts")
      case False
      with nf Cons.prems have "gather e sched late ts s = (j, ts', s')" by simp
      from Cons.IH[OF this] show ?thesis .
    next
      case True
      obtain t1 s1 where st: "task_step e (ts ! i) s = (t1, s1)" by (cases "task_step e (ts ! i) s")
      show ?thesis
      proof (cases "task_exception t1")
        case (Some x)
        with nf True st Cons.prems have r: "j = JoinRaised x"
          and rl: "run_late e late (ts[i := t1]) s1 = (ts', s')"
          by (simp_all split: prod.splits)
        from Some obtain u where t1: "t1 = (u, Failed x)" by (auto simp: task_exception_Some)
        have "(u, Failed x) \<in> set (ts[i := t1])"
          using t1 True by (simp add: set_update_memI)
        from run_late_failed_stays[OF rl this] have mem: "(u, Failed x) \<in> set ts'" .
        moreover have "\<not> all_finished ts'"
        proof
          assume "all_finished ts'"
          then have "snd (u, Failed x) = Finished"
            using mem unfolding all_finished_iff by blast
          then show False by simp
        qed
        ultimately show ?thesis using r by auto
      next
        case None
        with nf True st Cons.prems have "gather e sched late (ts[i := t1]) s1 = (j, ts', s')" by simp
        from Cons.IH[OF this] show ?thesis .
      qed
    qed
  qed
qed

lemma gather_ok:
  "gather e sched late ts s = (j, ts', s') \<Longrightarrow> \<forall>t\<in>set ts. task_ok e new t \<Longrightarrow>
   persisted s = p0 @ new \<Longrightarrow>
   \<exists>new'. persisted s' = p0 @ new' \<and> (\<forall>t\<in>set ts'. task_ok e new' t)"
proof (induction sched arbitrary: ts s new)
  case Nil
  then show ?case by (auto split: if_splits)
next
  case (Cons i sched)
  show ?case
  proof (cases "all_finished ts")
    case True
    with Cons.prems show ?thesis by auto
  next
    case nf: False
    show ?thesis
    proof (cases "i < length ts")
      case False
      with nf Cons.prems have "gather e sched late ts s = (j, ts', s')" by simp
      from Cons.IH[OF this Cons.prems(2,3)] show ?thesis .
    next
      case True
      obtain t1 s1 where st: "task_step e (ts ! i) s = (t1, s1)" by (cases "task_step e (ts ! i) s")
      have "task_ok e new (ts ! i)" using Cons.prems(2) True by simp
      from task_step_ok[OF st this Cons.prems(3)] obtain new1 where
        n1: "persisted s1 = p0 @ new1" "set new \<subseteq> set new1" "task_ok e new1 t1"
        by blast
      have ok1: "\<forall>t\<in>set (ts[i := t1]). task_ok e new1 t"
      proof
        fix t assume "t \<in> set (ts[i := t1])"
        then have "t = t1 \<or> t \<in> set ts" by (rule update_cases)
        then show "task_ok e new1 t"
          using n1(2,3) Cons.prems(2) task_ok_mono by blast
      qed
      show ?thesis
      proof (cases "task_exception t1")
        case (Some x)
        with nf True st Cons.prems(1) have "run_late e late (ts[i := t1]) s1 = (ts', s')"
          by (simp split: prod.splits)
        from run_late_ok[OF this ok1 n1(1)] show ?thesis .
      next
        case None
        with nf True st Cons.prems(1) have "gather e sched late (ts[i := t1]) s1 = (j, ts', s')" by simp
        from Cons.IH[OF this ok1 n1(1)] show ?thesis .
      qed
    qed
  qed
qed

lemma gather_no_failure:
  "gather e sched late ts s = (j, ts', s') \<Longrightarrow> \<forall>t\<in>set ts. task_exception t = None \<Longrightarrow>
   (\<forall>x. j \<noteq> JoinRaised x) \<Longrightarrow> \<forall>t\<in>set ts'. task_exception t = None"
proof (induction sched arbitrary: ts s)
  case Nil
  then show ?case by (auto split: if_splits)
next
  case (Cons i sched)
  show ?case
  proof (cases "all_finished ts")
    case True
    with Cons.prems show ?thesis by auto
  next
    case nf: False
    show ?thesis
    proof (cases "i < length ts")
      case False
      with nf Cons.prems have "gather e sched late ts s = (j, ts', s')" by simp
      from Cons.IH[OF this Cons.prems(2,3)] show ?thesis .
    next
      case True
      obtain t1 s1 where st: "task_step e (ts ! i) s = (t1, s1)" by (cases "task_step e (ts ! i) s")
      show ?thesis
      proof (cases "task_exception t1")
        case (Some x)
        with nf True st Cons.prems(1) have "j = JoinRaised x"
          by (simp split: prod.splits)
        with Cons.prems(3) show ?thesis by blast
      next
        case None
        with nf True st Cons.prems(1) have g: "gather e sched late (ts[i := t1]) s1 = (j, ts', s')" by simp
        have "\<forall>t\<in>set (ts[i := t1]). task_exception t = None"
        proof
          fix t assume "t \<in> set (ts[i := t1])"
          then have "t = t1 \<or> t \<in> set ts" by (rule update_cases)
          then show "task_exception t = None"
            using None Cons.prems(2) by blast
        qed
        from Cons.IH[OF g this Cons.prems(3)] show ?thesis .
      qed
    qed
  qed
qed

lemma task_exception_fresh: "\<forall>t\<in>set (map (\<lambda>msg. (msg, AtGet)) messages). task_exception t = None"
  by auto

lemma task_ok_fresh: "\<forall>t\<in>set (map (\<lambda>msg. (msg, AtGet)) messages). task_ok e [] t"
  by auto

section \<open>Properties of consume\<close>

text \<open>
  \<open>consume\<close> first asks the topic for a balanced consumer of the group
  \<^verbatim>\<open>image_spiders\<close>, with \<^verbatim>\<open>auto_commit_enable=True\<close>, and opens an HTTP session.
  \<open>commit_calls\<close> counts the calls of \<^verbatim>\<open>commit_offsets\<close> the module makes; \<open>committed\<close>
  follows these calls and the commits the client library makes by itself.
\<close>

lemma consume_iteration_empty:
  assumes "poll_consumer e (BATCH_SIZE e) s = Some (Inr [], s1)"
  shows "consume_iteration e sched tot s =
           Some (Continue, [], tot, emit (Sleep 1) (s1\<lparr>timer_calls := Suc (timer_calls s1)\<rparr>))"
  by (simp add: consume_iteration_def assms timer_read_def)

lemma consume_iteration_nonempty:
  assumes "poll_consumer e (BATCH_SIZE e) s = Some (Inr messages, s1)" "messages \<noteq> []"
    and "gather e (fst sched) (snd sched) (map (\<lambda>msg. (msg, AtGet)) messages)
           (fan_out_state messages s1) = (j, ts, s4)"
  shows "consume_iteration e sched tot s =
     (case j of
        Pending \<Rightarrow> Some (Hung, ts, tot + int (length messages), s4)
      | JoinRaised x \<Rightarrow> Some (Raised x, ts, tot + int (length messages), s4)
      | Joined \<Rightarrow>
          (if fsub (timer e (timer_calls s4)) (timer e (timer_calls s1)) = 0
           then Some (Raised ZeroDivisionError, ts, tot + int (length messages),
                      s4\<lparr>timer_calls := Suc (timer_calls s4)\<rparr>)
           else Some (Continue, ts, tot + int (length messages),
                  commit_offsets
                    (emit (LogInfo (BatchTime (fsub (timer e (timer_calls s4)) (timer e (timer_calls s1)))))
                      (emit (LogInfo (ResizeRate (fdiv (of_int (int (length messages)))
                               (fsub (timer e (timer_calls s4)) (timer e (timer_calls s1))))))
                        (s4\<lparr>timer_calls := Suc (timer_calls s4)\<rparr>))))))"
  using assms
  by (simp add: consume_iteration_def timer_read_def fan_out_state_def Let_def split: join.splits)

lemma fan_out_state_frame:
  "delivered (fan_out_state m s1) = delivered s1" "committed (fan_out_state m s1) = committed s1"
  "persisted (fan_out_state m s1) = persisted s1" "commit_calls (fan_out_state m s1) = commit_calls s1"
  "timer_calls (fan_out_state m s1) = Suc (timer_calls s1)"
  "consume_calls (fan_out_state m s1) = consume_calls s1"
  by (simp_all add: fan_out_state_def emit_def commit_calls_def)

lemma commit_calls_frame:
  "trace s' = trace s \<Longrightarrow> commit_calls s' = commit_calls s"
  by (simp add: commit_calls_def)

lemmas join_eval =
  all_finished_def persist_def emit_def thumbnail_image_def fan_out_state_def
  save_thumbnail_local_def init_state_def

lemma poll_consumer_env_idle:
  "poll_consumer env_idle (BATCH_SIZE env_idle) init_state =
     Some (Inr [], init_state\<lparr>timer_calls := 4, consume_calls := 3\<rparr>)"
  by (simp add: poll_eval env_idle_def env_demo_def)


lemma poll_consumer_env_second_fails:
  "poll_consumer env_second_fails (BATCH_SIZE env_second_fails) init_state =
     Some (Inr [''u0'', ''u1'', ''u2''],
           init_state\<lparr>timer_calls := 7, consume_calls := 3, delivered := 3\<rparr>)"
  by (simp add: poll_eval env_second_fails_def env_demo_def)

lemma poll_consumer_env_auto_commit:
  "poll_consumer env_auto_commit (BATCH_SIZE env_auto_commit) init_state =
     Some (Inr [''u0'', ''u1'', ''u2''],
           init_state\<lparr>timer_calls := 7, consume_calls := 3, delivered := 3, committed := 2\<rparr>)"
  by (simp add: poll_eval env_auto_commit_def env_second_fails_def env_demo_def)

lemma poll_consumer_env_demo_batch:
  "poll_consumer env_demo (BATCH_SIZE env_demo) init_state =
     Some (Inr [''u0'', ''u1''],
           init_state\<lparr>timer_calls := 5, consume_calls := 2, delivered := 2\<rparr>)"
  using poll_consumer_env_demo_2 by (simp add: env_demo_def)

lemma poll_consumer_env_frozen_clock:
  "poll_consumer env_frozen_clock (BATCH_SIZE env_frozen_clock) init_state =
     Some (Inr [''u0'', ''u1''],
           init_state\<lparr>timer_calls := 5, consume_calls := 2, delivered := 2\<rparr>)"
  by (simp add: poll_eval env_frozen_clock_def env_demo_def)

lemma gather_env_second_fails:
  "gather env_second_fails [0, 0, 0, 0, 0, 1] [2, 2, 2, 2, 2]
     (map (\<lambda>msg. (msg, AtGet)) [''u0'', ''u1'', ''u2''])
     (fan_out_state [''u0'', ''u1'', ''u2'']
        (init_state\<lparr>timer_calls := 7, consume_calls := 3, delivered := 3\<rparr>)) =
   (JoinRaised (OtherError ''ClientResponseError''),
    [(''u0'', Finished), (''u1'', Failed (OtherError ''ClientResponseError'')), (''u2'', Finished)],
    init_state\<lparr>timer_calls := 8, consume_calls := 3, delivered := 3,
      persisted := [[255, 216, 255], [255, 216, 255]],
      trace := [LogInfo (BatchSize 3),
        HttpGet ''u0'', BodyRead (Response 2), RunInExecutor (ImageOpen [255, 216]),
        RunInExecutor (ThumbnailImage (Image 2)), Persist [255, 216, 255],
        HttpGet ''u1'',
        HttpGet ''u2'', BodyRead (Response 2), RunInExecutor (ImageOpen [255, 216]),
        RunInExecutor (ThumbnailImage (Image 2)), Persist [255, 216, 255]]\<rparr>)"
  by (simp add: join_eval env_second_fails_def env_demo_def)

lemma gather_env_auto_commit:
  "gather env_auto_commit [0, 0, 0, 0, 0, 1] [2, 2, 2, 2, 2]
     (map (\<lambda>msg. (msg, AtGet)) [''u0'', ''u1'', ''u2''])
     (fan_out_state [''u0'', ''u1'', ''u2'']
        (init_state\<lparr>timer_calls := 7, consume_calls := 3, delivered := 3, committed := 2\<rparr>)) =
   (JoinRaised (OtherError ''ClientResponseError''),
    [(''u0'', Finished), (''u1'', Failed (OtherError ''ClientResponseError'')), (''u2'', Finished)],
    init_state\<lparr>timer_calls := 8, consume_calls := 3, delivered := 3, committed := 2,
      persisted := [[255, 216, 255], [255, 216, 255]],
      trace := [LogInfo (BatchSize 3),
        HttpGet ''u0'', BodyRead (Response 2), RunInExecutor (ImageOpen [255, 216]),
        RunInExecutor (ThumbnailImage (Image 2)), Persist [255, 216, 255],
        HttpGet ''u1'',
        HttpGet ''u2'', BodyRead (Response 2), RunInExecutor (ImageOpen [255, 216]),
        RunInExecutor (ThumbnailImage (Image 2)), Persist [255, 216, 255]]\<rparr>)"
  by (simp add: join_eval env_auto_commit_def env_second_fails_def env_demo_def)

lemma gather_env_demo:
  "gather env_demo [0, 1, 0, 1, 0, 1, 0, 1, 0, 1] []
     (map (\<lambda>msg. (msg, AtGet)) [''u0'', ''u1''])
     (fan_out_state [''u0'', ''u1'']
        (init_state\<lparr>timer_calls := 5, consume_calls := 2, delivered := 2\<rparr>)) =
   (Joined, [(''u0'', Finished), (''u1'', Finished)],
    init_state\<lparr>timer_calls := 6, consume_calls := 2, delivered := 2,
      persisted := [[255, 216, 255], [255, 216, 255]],
      trace := [LogInfo (BatchSize 2),
        HttpGet ''u0'', HttpGet ''u1'', BodyRead (Response 2), BodyRead (Response 2),
        RunInExecutor (ImageOpen [255, 216]), RunInExecutor (ImageOpen [255, 216]),
        RunInExecutor (ThumbnailImage (Image 2)), RunInExecutor (ThumbnailImage (Image 2)),
        Persist [255, 216, 255], Persist [255, 216, 255]]\<rparr>)"
  by (simp add: join_eval env_demo_def)

lemma gather_env_frozen_clock:
  "gather env_frozen_clock [0, 1, 0, 1, 0, 1, 0, 1, 0, 1] []
     (map (\<lambda>msg. (msg, AtGet)) [''u0'', ''u1''])
     (fan_out_state [''u0'', ''u1'']
        (init_state\<lparr>timer_calls := 5, consume_calls := 2, delivered := 2\<rparr>)) =
   (Joined, [(''u0'', Finished), (''u1'', Finished)],
    init_state\<lparr>timer_calls := 6, consume_calls := 2, delivered := 2,
      persisted := [[255, 216, 255], [255, 216, 255]],
      trace := [LogInfo (BatchSize 2),
        HttpGet ''u0'', HttpGet ''u1'', BodyRead (Response 2), BodyRead (Response 2),
        RunInExecutor (ImageOpen [255, 216]), RunInExecutor (ImageOpen [255, 216]),
        RunInExecutor (ThumbnailImage (Image 2)), RunInExecutor (ThumbnailImage (Image 2)),
        Persist [255, 216, 255], Persist [255, 216, 255]]\<rparr>)"
  by (simp add: join_eval env_frozen_clock_def env_demo_def)

lemma consume_iteration_env_second_fails:
  "consume_iteration env_second_fails ([0, 0, 0, 0, 0, 1], [2, 2, 2, 2, 2]) 0 init_state =
     Some (Raised (OtherError ''ClientResponseError''),
       [(''u0'', Finished), (''u1'', Failed (OtherError ''ClientResponseError'')), (''u2'', Finished)],
       3,
       init_state\<lparr>timer_calls := 8, consume_calls := 3, delivered := 3,
         persisted := [[255, 216, 255], [255, 216, 255]],
         trace := [LogInfo (BatchSize 3),
           HttpGet ''u0'', BodyRead (Response 2), RunInExecutor (ImageOpen [255, 216]),
           RunInExecutor (ThumbnailImage (Image 2)), Persist [255, 216, 255],
           HttpGet ''u1'',
           HttpGet ''u2'', BodyRead (Response 2), RunInExecutor (ImageOpen [255, 216]),
           RunInExecutor (ThumbnailImage (Image 2)), Persist [255, 216, 255]]\<rparr>)"
  using consume_iteration_nonempty
    [OF poll_consumer_env_second_fails, of "([0, 0, 0, 0, 0, 1], [2, 2, 2, 2, 2])" _ _ _ 0]
    gather_env_second_fails
  by simp

lemma consume_iteration_env_demo:
  "consume_iteration env_demo ([0, 1, 0, 1, 0, 1, 0, 1, 0, 1], []) 0 init_state =
     Some (Continue, [(''u0'', Finished), (''u1'', Finished)], 2,
       init_state\<lparr>timer_calls := 7, consume_calls := 2, delivered := 2, committed := 2,
         persisted := [[255, 216, 255], [255, 216, 255]],
         trace := [LogInfo (BatchSize 2),
           HttpGet ''u0'', HttpGet ''u1'', BodyRead (Response 2), BodyRead (Response 2),
           RunInExecutor (ImageOpen [255, 216]), RunInExecutor (ImageOpen [255, 216]),
           RunInExecutor (ThumbnailImage (Image 2)), RunInExecutor (ThumbnailImage (Image 2)),
           Persist [255, 216, 255], Persist [255, 216, 255],
           LogInfo (ResizeRate 2), LogInfo (BatchTime 1), CommitOffsets]\<rparr>)"
  using consume_iteration_nonempty
    [OF poll_consumer_env_demo_batch, of "([0, 1, 0, 1, 0, 1, 0, 1, 0, 1], [])" _ _ _ 0]
    gather_env_demo
  by (simp add: commit_offsets_def emit_def env_demo_def init_state_def fsub_def fdiv_def
      round_double_small)

lemma consume_iteration_env_frozen_clock:
  "consume_iteration env_frozen_clock ([0, 1, 0, 1, 0, 1, 0, 1, 0, 1], []) 0 init_state =
     Some (Raised ZeroDivisionError, [(''u0'', Finished), (''u1'', Finished)], 2,
       init_state\<lparr>timer_calls := 7, consume_calls := 2, delivered := 2,
         persisted := [[255, 216, 255], [255, 216, 255]],
         trace := [LogInfo (BatchSize 2),
           HttpGet ''u0'', HttpGet ''u1'', BodyRead (Response 2), BodyRead (Response 2),
           RunInExecutor (ImageOpen [255, 216]), RunInExecutor (ImageOpen [255, 216]),
           RunInExecutor (ThumbnailImage (Image 2)), RunInExecutor (ThumbnailImage (Image 2)),
           Persist [255, 216, 255], Persist [255, 216, 255]]\<rparr>)"
  using consume_iteration_nonempty
    [OF poll_consumer_env_frozen_clock, of "([0, 1, 0, 1, 0, 1, 0, 1, 0, 1], [])" _ _ _ 0]
    gather_env_frozen_clock
  by (simp add: env_frozen_clock_def env_demo_def init_state_def fsub_def round_double_def)

lemma consume_iteration_env_idle:
  "consume_iteration env_idle ([], []) 0 init_state =
     Some (Continue, [], 0,
           init_state\<lparr>timer_calls := 5, consume_calls := 3, trace := [Sleep 1]\<rparr>)"
  using consume_iteration_empty [OF poll_consumer_env_idle, of "([], [])" 0]
  by (simp add: emit_def init_state_def)

text \<open>
  Claim C1, as the code has it. In every iteration there is one task for each message of
  the batch. When the batch is empty no task is made and \<^verbatim>\<open>commit_offsets\<close> is not called.
  When it is not empty, the batch time measured after the join not being 0,
  \<^verbatim>\<open>commit_offsets\<close> is called once if every task has finished and not at all otherwise (a
  task has failed, or the join is pending for ever); the call covers every message
  delivered so far. The iteration goes on to the next one exactly when every task has
  finished.
\<close>

theorem consume_commits_iff_all_finished:
  assumes poll: "poll_consumer e (BATCH_SIZE e) s = Some (Inr messages, s1)"
    and clock: "messages \<noteq> [] \<Longrightarrow>
                  fsub (timer e (Suc (timer_calls s1))) (timer e (timer_calls s1)) \<noteq> 0"
  shows "\<exists>out ts tot' s'.
           consume_iteration e sched tot s = Some (out, ts, tot', s') \<and>
           map fst ts = messages \<and>
           commit_calls s' = commit_calls s + (if messages \<noteq> [] \<and> all_finished ts then 1 else 0) \<and>
           (all_finished ts \<longleftrightarrow> out = Continue) \<and>
           (messages \<noteq> [] \<and> all_finished ts \<longrightarrow> committed s' = delivered s')"
proof (cases "messages = []")
  case True
  let ?s' = "emit (Sleep 1) (s1\<lparr>timer_calls := Suc (timer_calls s1)\<rparr>)"
  note pf = poll_consumer_frame[OF poll]
  have "consume_iteration e sched tot s = Some (Continue, [], tot, ?s')"
    using consume_iteration_empty poll True by simp
  moreover have "commit_calls ?s' = commit_calls s"
    using pf(3) by (simp add: commit_calls_def emit_def)
  moreover have "all_finished []" by (simp add: all_finished_def)
  ultimately show ?thesis using True by auto
next
  case ne: False
  obtain j ts s4 where
    g: "gather e (fst sched) (snd sched) (map (\<lambda>msg. (msg, AtGet)) messages)
          (fan_out_state messages s1) = (j, ts, s4)"
    by (metis prod_cases3)
  note it = consume_iteration_nonempty[OF poll ne g, of tot]
  note pf = poll_consumer_frame[OF poll]
  note gf = gather_frame[OF g] and gj = gather_join[OF g]
  have fst_ts: "map fst ts = messages"
    using gf by (simp add: comp_def)
  have cc4: "commit_calls s4 = commit_calls s"
    using gf commit_calls_frame[OF pf(3)] by (simp add: fan_out_state_frame)
  have tc4: "timer_calls s4 = Suc (timer_calls s1)"
    using gf by (simp add: fan_out_state_frame)
  show ?thesis
  proof (cases j)
    case Joined
    then have fin: "all_finished ts" using gj by simp
    let ?tt = "fsub (timer e (timer_calls s4)) (timer e (timer_calls s1))"
    let ?s' = "commit_offsets
                    (emit (LogInfo (BatchTime ?tt))
                      (emit (LogInfo (ResizeRate (fdiv (of_int (int (length messages))) ?tt)))
                        (s4\<lparr>timer_calls := Suc (timer_calls s4)\<rparr>)))"
    have "consume_iteration e sched tot s = Some (Continue, ts, tot + int (length messages), ?s')"
      using it Joined clock[OF ne] tc4 by simp
    moreover have "commit_calls ?s' = commit_calls s + 1"
      using cc4 by (simp add: commit_offsets_def emit_def commit_calls_def)
    moreover have "committed ?s' = delivered ?s'"
      by (simp add: commit_offsets_def emit_def)
    ultimately show ?thesis using fin fst_ts ne by auto
  next
    case (JoinRaised x)
    then have nfin: "\<not> all_finished ts" using gj by simp
    have "consume_iteration e sched tot s = Some (Raised x, ts, tot + int (length messages), s4)"
      using it JoinRaised by simp
    then show ?thesis using nfin fst_ts cc4 by auto
  next
    case Pending
    then have nfin: "\<not> all_finished ts" using gj by simp
    have "consume_iteration e sched tot s = Some (Hung, ts, tot + int (length messages), s4)"
      using it Pending by simp
    then show ?thesis using nfin fst_ts cc4 by auto
  qed
qed

theorem consume_commits_iff_all_finished_witness:
  "consume_iteration env_demo ([0, 1, 0, 1, 0, 1, 0, 1, 0, 1], []) 0 init_state =
     Some (Continue, [(''u0'', Finished), (''u1'', Finished)], 2,
       init_state\<lparr>timer_calls := 7, consume_calls := 2, delivered := 2, committed := 2,
         persisted := [[255, 216, 255], [255, 216, 255]],
         trace := [LogInfo (BatchSize 2),
           HttpGet ''u0'', HttpGet ''u1'', BodyRead (Response 2), BodyRead (Response 2),
           RunInExecutor (ImageOpen [255, 216]), RunInExecutor (ImageOpen [255, 216]),
           RunInExecutor (ThumbnailImage (Image 2)), RunInExecutor (ThumbnailImage (Image 2)),
           Persist [255, 216, 255], Persist [255, 216, 255],
           LogInfo (ResizeRate 2), LogInfo (BatchTime 1), CommitOffsets]\<rparr>) \<and>
   all_finished [(''u0'', Finished), (''u1'', Finished)] \<and>
   (\<exists>out ts tot' s'.
       consume_iteration env_demo ([0, 1, 0, 1, 0, 1, 0, 1, 0, 1], []) 0 init_state =
         Some (out, ts, tot', s') \<and>
       map fst ts = [''u0'', ''u1''] \<and>
       commit_calls s' =
         commit_calls init_state +
           (if [''u0'', ''u1''] \<noteq> ([] :: string list) \<and> all_finished ts then 1 else 0) \<and>
       (all_finished ts \<longleftrightarrow> out = Continue) \<and>
       committed s' = delivered s') \<and>
   (\<exists>out ts tot' s'.
       consume_iteration env_idle ([], []) 0 init_state = Some (out, ts, tot', s') \<and>
       map fst ts = [] \<and> commit_calls s' = commit_calls init_state)"
proof -
  have clock:
    "[''u0'', ''u1''] \<noteq> ([] :: string list) \<Longrightarrow>
     fsub (timer env_demo (Suc (timer_calls (init_state\<lparr>timer_calls := 5, consume_calls := 2, delivered := 2\<rparr>))))
       (timer env_demo (timer_calls (init_state\<lparr>timer_calls := 5, consume_calls := 2, delivered := 2\<rparr>))) \<noteq> 0"
    by (simp add: env_demo_def fsub_def round_double_small)
  have fin: "all_finished [(''u0'', Finished), (''u1'', Finished)]"
    by (simp add: all_finished_def)
  have idle: "([] :: string list) \<noteq> [] \<Longrightarrow>
     fsub (timer env_idle (Suc (timer_calls (init_state\<lparr>timer_calls := 4, consume_calls := 3\<rparr>))))
       (timer env_idle (timer_calls (init_state\<lparr>timer_calls := 4, consume_calls := 3\<rparr>))) \<noteq> 0"
    by simp
  from consume_commits_iff_all_finished
        [OF poll_consumer_env_demo_batch clock, of "([0, 1, 0, 1, 0, 1, 0, 1, 0, 1], [])" 0]
  have a: "\<exists>out ts tot' s'.
       consume_iteration env_demo ([0, 1, 0, 1, 0, 1, 0, 1, 0, 1], []) 0 init_state =
         Some (out, ts, tot', s') \<and>
       map fst ts = [''u0'', ''u1''] \<and>
       commit_calls s' =
         commit_calls init_state +
           (if [''u0'', ''u1''] \<noteq> ([] :: string list) \<and> all_finished ts then 1 else 0) \<and>
       (all_finished ts \<longleftrightarrow> out = Continue) \<and>
       committed s' = delivered s'"
    using consume_iteration_env_demo fin by auto
  from consume_commits_iff_all_finished
        [OF poll_consumer_env_idle idle, of "([], [])" 0]
  have b: "\<exists>out ts tot' s'.
       consume_iteration env_idle ([], []) 0 init_state = Some (out, ts, tot', s') \<and>
       map fst ts = [] \<and> commit_calls s' = commit_calls init_state"
    by auto
  show ?thesis
    using consume_iteration_env_demo fin a b by blast
qed

text \<open>
  The claim as the specification words it fails in two ways. When no message has arrived
  the batch is empty: no task has been launched, so none has failed, and yet
  \<^verbatim>\<open>commit_offsets\<close> is not called. And when every task of a batch has finished but the two
  clock readings around the join are equal, the division in the log line of the rate
  raises \<^verbatim>\<open>ZeroDivisionError\<close> before the call.
\<close>

theorem consume_empty_batch_no_commit_counterexample:
  "consume_iteration env_idle ([], []) 0 init_state =
     Some (Continue, [], 0,
           init_state\<lparr>timer_calls := 5, consume_calls := 3, trace := [Sleep 1]\<rparr>) \<and>
   all_finished [] \<and>
   commit_calls (init_state\<lparr>timer_calls := 5, consume_calls := 3, trace := [Sleep 1]\<rparr>) =
     commit_calls init_state \<and>
   consume_iteration env_frozen_clock ([0, 1, 0, 1, 0, 1, 0, 1, 0, 1], []) 0 init_state =
     Some (Raised ZeroDivisionError, [(''u0'', Finished), (''u1'', Finished)], 2,
       init_state\<lparr>timer_calls := 7, consume_calls := 2, delivered := 2,
         persisted := [[255, 216, 255], [255, 216, 255]],
         trace := [LogInfo (BatchSize 2),
           HttpGet ''u0'', HttpGet ''u1'', BodyRead (Response 2), BodyRead (Response 2),
           RunInExecutor (ImageOpen [255, 216]), RunInExecutor (ImageOpen [255, 216]),
           RunInExecutor (ThumbnailImage (Image 2)), RunInExecutor (ThumbnailImage (Image 2)),
           Persist [255, 216, 255], Persist [255, 216, 255]]\<rparr>) \<and>
   all_finished [(''u0'', Finished), (''u1'', Finished)] \<and>
   commit_calls
     (init_state\<lparr>timer_calls := 7, consume_calls := 2, delivered := 2,
         persisted := [[255, 216, 255], [255, 216, 255]],
         trace := [LogInfo (BatchSize 2),
           HttpGet ''u0'', HttpGet ''u1'', BodyRead (Response 2), BodyRead (Response 2),
           RunInExecutor (ImageOpen [255, 216]), RunInExecutor (ImageOpen [255, 216]),
           RunInExecutor (ThumbnailImage (Image 2)), RunInExecutor (ThumbnailImage (Image 2)),
           Persist [255, 216, 255], Persist [255, 216, 255]]\<rparr>) = commit_calls init_state"
  using consume_iteration_env_idle consume_iteration_env_frozen_clock
  by (simp add: all_finished_def commit_calls_def init_state_def)

text \<open>
  When a task of the batch has failed, the iteration ends by raising the exception of a
  failed task and the module has not called \<^verbatim>\<open>commit_offsets\<close>; what was stored before is
  still stored, and after it the buffer of every task that had finished when \<open>consume\<close>
  resumed. If moreover the client library has not committed by itself during the poll,
  the committed position is the one before the iteration and every message delivered in
  this iteration lies at or after it.
\<close>

lemma failed_batch_without_auto_commit:
  assumes it: "consume_iteration e sched tot s = Some (out, ts, tot', s')"
    and failed: "(u, Failed x) \<in> set ts"
    and quiet: "\<forall>k. consume_calls s \<le> k \<and> k < consume_calls s' \<longrightarrow> \<not> auto_commit_due e k"
    and inv: "committed s \<le> delivered s"
  shows "(\<exists>y u'. out = Raised y \<and> (u', Failed y) \<in> set ts) \<and>
         commit_calls s' = commit_calls s \<and> committed s' = committed s \<and>
         delivered s' = delivered s + length ts \<and>
         (\<forall>k. delivered s \<le> k \<and> k < delivered s' \<longrightarrow> committed s' \<le> k) \<and>
         (\<exists>new. persisted s' = persisted s @ new \<and>
                (\<forall>u'. (u', Finished) \<in> set ts \<longrightarrow>
                   (\<exists>thumb. thumbnail_of e u' = Inr thumb \<and> thumb \<in> set new)))"
proof -
  from it obtain r s1 where poll: "poll_consumer e (BATCH_SIZE e) s = Some (r, s1)"
    by (cases "poll_consumer e (BATCH_SIZE e) s") (auto simp: consume_iteration_def)
  show ?thesis
  proof (cases r)
    case (Inl y)
    with it poll have "ts = []" by (simp add: consume_iteration_def)
    with failed show ?thesis by simp
  next
    case (Inr messages)
    note poll' = poll[unfolded Inr]
    show ?thesis
    proof (cases "messages = []")
      case True
      with it consume_iteration_empty[OF poll'[unfolded True]] failed show ?thesis by simp
    next
      case ne: False
      obtain j ts4 s4 where
        g: "gather e (fst sched) (snd sched) (map (\<lambda>msg. (msg, AtGet)) messages)
              (fan_out_state messages s1) = (j, ts4, s4)"
        by (metis prod_cases3)
      note ci = consume_iteration_nonempty[OF poll' ne g, of tot]
      note pf = poll_consumer_frame[OF poll']
      note gf = gather_frame[OF g] and gj = gather_join[OF g]
      have ts: "ts = ts4"
        using it ci by (cases j) (auto split: if_splits)
      have ex: "task_exception (u, Failed x) = Some x" by simp
      have "\<exists>y. j = JoinRaised y"
      proof (rule ccontr)
        assume "\<not> (\<exists>y. j = JoinRaised y)"
        then have "\<forall>y. j \<noteq> JoinRaised y" by blast
        from gather_no_failure[OF g task_exception_fresh this] failed ex ts
        show False by force
      qed
      then obtain y where j: "j = JoinRaised y" by blast
      with gj ts obtain u' where fy: "(u', Failed y) \<in> set ts" by blast
      from it ci j have out: "out = Raised y" and s': "s' = s4"
        by auto
      have cs: "consume_calls s' = consume_calls s1"
        using gf s' by (simp add: fan_out_state_frame)
      have len: "length ts = length messages"
        using gf ts by (metis length_map)
      have cc: "commit_calls s' = commit_calls s"
        using gf commit_calls_frame[OF pf(3)] s' by (simp add: fan_out_state_frame)
      have "committed s1 = committed s"
        using pf(6) quiet cs by simp
      then have com: "committed s' = committed s"
        using gf s' by (simp add: fan_out_state_frame)
      have del: "delivered s' = delivered s + length ts"
        using gf pf s' len by (simp add: fan_out_state_frame)
      have "persisted (fan_out_state messages s1) = persisted s @ []"
        using pf by (simp add: fan_out_state_frame)
      from gather_ok[OF g task_ok_fresh this] obtain new where
        new: "persisted s4 = persisted s @ new" "\<forall>t\<in>set ts4. task_ok e new t"
        by blast
      have "\<forall>u'. (u', Finished) \<in> set ts \<longrightarrow>
                   (\<exists>thumb. thumbnail_of e u' = Inr thumb \<and> thumb \<in> set new)"
      proof (intro allI impI)
        fix u' assume "(u', Finished) \<in> set ts"
        then have "task_ok e new (u', Finished)" using new(2) ts by blast
        then show "\<exists>thumb. thumbnail_of e u' = Inr thumb \<and> thumb \<in> set new"
          by (cases "thumbnail_of e u'") auto
      qed
      with new(1) s' have "\<exists>new. persisted s' = persisted s @ new \<and>
                (\<forall>u'. (u', Finished) \<in> set ts \<longrightarrow>
                   (\<exists>thumb. thumbnail_of e u' = Inr thumb \<and> thumb \<in> set new))"
        by blast
      moreover have "\<forall>k. delivered s \<le> k \<and> k < delivered s' \<longrightarrow> committed s' \<le> k"
        using com inv by auto
      ultimately show ?thesis using out fy cc com del by blast
    qed
  qed
qed

text \<open>
  Claim C2 fails on the code. The consumer is created with \<^verbatim>\<open>auto_commit_enable=True\<close>: when
  the commit interval of the client library elapses during the poll, here inside the
  second call of \<^verbatim>\<open>consumer.consume\<close>, the messages of the batch handed out so far are
  committed before any task has run. The fetch of the second URL then fails and the
  iteration raises, the module never calls \<^verbatim>\<open>commit_offsets\<close>, and still the committed
  position has moved from 0 to 2: the first message will not be delivered again.
\<close>

theorem failed_batch_auto_commit:
  "consume_iteration env_auto_commit ([0, 0, 0, 0, 0, 1], [2, 2, 2, 2, 2]) 0 init_state =
     Some (Raised (OtherError ''ClientResponseError''),
       [(''u0'', Finished), (''u1'', Failed (OtherError ''ClientResponseError'')), (''u2'', Finished)],
       3,
       init_state\<lparr>timer_calls := 8, consume_calls := 3, delivered := 3, committed := 2,
         persisted := [[255, 216, 255], [255, 216, 255]],
         trace := [LogInfo (BatchSize 3),
           HttpGet ''u0'', BodyRead (Response 2), RunInExecutor (ImageOpen [255, 216]),
           RunInExecutor (ThumbnailImage (Image 2)), Persist [255, 216, 255],
           HttpGet ''u1'',
           HttpGet ''u2'', BodyRead (Response 2), RunInExecutor (ImageOpen [255, 216]),
           RunInExecutor (ThumbnailImage (Image 2)), Persist [255, 216, 255]]\<rparr>) \<and>
   committed init_state = 0"
  using consume_iteration_nonempty
    [OF poll_consumer_env_auto_commit, of "([0, 0, 0, 0, 0, 1], [2, 2, 2, 2, 2])" _ _ _ 0]
    gather_env_auto_commit
  by (simp add: init_state_def)



end
